theory Spec2Isabelle
  imports Main
begin

section \<open>Python strings\<close>

text \<open>
  A Python \<open>str\<close> is a sequence of Unicode code points. The sanitizer replaces the
  en dash U+2013, which is one code point and not one byte, so a string is modelled as
  the list of its code points. \<open>ascii\<close> embeds an ASCII literal.
\<close>

type_synonym pystr = "nat list"

definition ascii :: "string \<Rightarrow> pystr" where
  "ascii s = map of_char s"

text \<open>
  The code points on which \<open>str.strip()\<close> and \<open>str.split()\<close> (both without
  argument) act: those for which CPython's \<open>Py_UNICODE_ISSPACE\<close> holds.
\<close>

definition is_space :: "nat \<Rightarrow> bool" where
  "is_space c = (c \<in> set [9, 10, 11, 12, 13, 28, 29, 30, 31, 32, 133, 160, 5760,
     8192, 8193, 8194, 8195, 8196, 8197, 8198, 8199, 8200, 8201, 8202,
     8232, 8233, 8239, 8287, 12288])"

text \<open>\<open>str.strip()\<close>: leading and trailing whitespace removed.\<close>

definition py_strip :: "pystr \<Rightarrow> pystr" where
  "py_strip s = rev (dropWhile is_space (rev (dropWhile is_space s)))"

text \<open>
  \<open>str.split()\<close>: the maximal runs of non-whitespace, in order. The first argument
  of \<open>split_from\<close> is the word being read.
\<close>

fun split_from :: "pystr \<Rightarrow> pystr \<Rightarrow> pystr list" where
  "split_from w [] = (if w = [] then [] else [w])"
| "split_from w (c # cs) =
     (if is_space c then (if w = [] then split_from [] cs else w # split_from [] cs)
      else split_from (w @ [c]) cs)"

definition py_split :: "pystr \<Rightarrow> pystr list" where
  "py_split s = split_from [] s"

text \<open>\<open>sep.join(words)\<close>.\<close>

fun py_join :: "pystr \<Rightarrow> pystr list \<Rightarrow> pystr" where
  "py_join sep [] = []"
| "py_join sep [w] = w"
| "py_join sep (w # v # ws) = w @ sep @ py_join sep (v # ws)"

text \<open>
  \<open>s.replace(old, new)\<close>: the occurrences of \<open>old\<close> are found from the left and do not
  overlap. With an empty \<open>old\<close>, Python puts \<open>new\<close> before every code point and at
  the end.
\<close>

function py_replace :: "pystr \<Rightarrow> pystr \<Rightarrow> pystr \<Rightarrow> pystr" where
  "py_replace old new s =
     (if old = [] then new @ concat (map (\<lambda>c. c # new) s)
      else if s = [] then []
      else if take (length old) s = old
        then new @ py_replace old new (drop (length old) s)
      else hd s # py_replace old new (tl s))"
  by pat_completeness auto
termination
  by (relation "measure (\<lambda>(old, new, s). length s)") auto

declare py_replace.simps [simp del]

section \<open>File names and paths\<close>

definition BASE_URL :: pystr where
  "BASE_URL = ascii ''https://tarat.ru''"

definition OUTPUT_DIR :: pystr where
  "OUTPUT_DIR = ascii ''tarat_tracks''"

definition MAX_CONCURRENT_DOWNLOADS :: nat where
  "MAX_CONCURRENT_DOWNLOADS = 6"

text \<open>The nine characters of the raw string \<open>r'<>:"/\|?*'\<close>.\<close>

definition reserved_chars :: pystr where
  "reserved_chars = [60, 62, 58, 34, 47, 92, 124, 63, 42]"

definition sanitize_filename :: "pystr \<Rightarrow> pystr" where
  "sanitize_filename name =
     (let name1 = py_strip (filter (\<lambda>c. c \<notin> set reserved_chars) name);
          name2 = py_join [32] (py_split name1)
      in py_replace [32, 8211, 32] [45] (py_replace [32, 45, 32] [45] name2))"


text \<open>
  \<open>os.path.join(a, b)\<close> and \<open>os.path.basename(p)\<close> as \<open>posixpath\<close> defines them
  (47 is the slash). Paths are compared as strings: nothing normalises them.
\<close>

definition os_path_join :: "pystr \<Rightarrow> pystr \<Rightarrow> pystr" where
  "os_path_join a b =
     (if b \<noteq> [] \<and> hd b = 47 then b
      else if a = [] \<or> last a = 47 then a @ b
      else a @ [47] @ b)"

definition os_path_basename :: "pystr \<Rightarrow> pystr" where
  "os_path_basename p = rev (takeWhile (\<lambda>c. c \<noteq> 47) (rev p))"

section \<open>The world outside the program\<close>

type_synonym bytes = "nat list"

text \<open>
  A raised exception with its message: an instance of \<open>Exception\<close>, which
  \<open>except Exception\<close> catches, or of \<open>BaseException\<close> only
  (\<open>asyncio.CancelledError\<close>, \<open>KeyboardInterrupt\<close>), which it does not.
\<close>

datatype exc = Exception pystr | BaseException pystr

text \<open>
  What \<open>session.get\<close> gives: it raises (a timeout, a transport error) or it answers
  with a status, the Content-Length header if there is one, the chunks that
  \<open>iter_chunked\<close> yields, and the error that ends the body early, if any.
\<close>

record response =
  status :: int
  content_length :: "pystr option"
  chunks :: "bytes list"
  body_error :: "pystr option"

datatype http_result = Failed pystr | Responded response

text \<open>The two places that issue a GET: line 122 (track body) and line 161 (cover).\<close>

datatype request = TrackGet pystr | CoverGet pystr

text \<open>
  The environment decides every external outcome. \<open>http_get\<close> takes the number of
  requests issued before, so that the same URL may answer differently later.
\<close>

record env =
  http_get :: "nat \<Rightarrow> request \<Rightarrow> http_result"
  makedirs_error :: "pystr \<Rightarrow> pystr option"
  open_error :: "pystr \<Rightarrow> pystr option"
  write_error :: "pystr \<Rightarrow> nat \<Rightarrow> pystr option"
  tag_error :: "pystr \<Rightarrow> pystr option"

text \<open>The entries of \<open>errors.log\<close>, one constructor per \<open>logging.error\<close> call.\<close>

datatype log_entry =
    HttpStatusError int pystr
  | DownloadError pystr pystr
  | CoverError pystr pystr
  | TagError pystr pystr
  | TaskException pystr

record id3 =
  tag_artist :: pystr
  tag_title :: pystr
  tag_album :: pystr
  tag_comment :: pystr

text \<open>
  The state the workers share and change: the file system, the cover registry
  \<open>downloaded_covers\<close>, the semaphore's counter, the cover lock, and what an observer
  can see of a run (requests issued, files opened and still open, the error log, the
  tags written, the slot's progress bar).
\<close>

record state =
  files :: "pystr \<rightharpoonup> bytes"
  dirs :: "pystr set"
  downloaded_covers :: "pystr set"
  sem_value :: nat
  cover_locked :: bool
  requests :: "request list"
  handles :: "pystr list"
  opened :: "pystr list"
  error_log :: "log_entry list"
  tags :: "pystr \<rightharpoonup> id3"
  pbar_desc :: pystr
  pbar_total :: int
  pbar_n :: nat

definition log_error :: "log_entry \<Rightarrow> state \<Rightarrow> state" where
  "log_error e s = s\<lparr>error_log := error_log s @ [e]\<rparr>"

definition os_path_exists :: "state \<Rightarrow> pystr \<Rightarrow> bool" where
  "os_path_exists s p = (p \<in> dirs s \<or> files s p \<noteq> None)"

text \<open>
  \<open>os.makedirs(folder, exist_ok=True)\<close>: nothing to do for a directory that exists,
  \<open>FileExistsError\<close> when the path is a file, otherwise the environment decides.
\<close>

definition os_makedirs :: "env \<Rightarrow> pystr \<Rightarrow> state \<Rightarrow> pystr option \<times> state" where
  "os_makedirs e folder s =
     (if folder \<in> dirs s then (None, s)
      else if files s folder \<noteq> None then (Some (ascii ''FileExistsError''), s)
      else (case makedirs_error e folder of
              Some m \<Rightarrow> (Some m, s)
            | None \<Rightarrow> (None, s\<lparr>dirs := insert folder (dirs s)\<rparr>)))"

definition file_size :: "state \<Rightarrow> pystr \<Rightarrow> nat" where
  "file_size s p = (case files s p of None \<Rightarrow> 0 | Some d \<Rightarrow> length d)"

text \<open>\<open>aiofiles.open(p, "wb")\<close> creates or truncates the file.\<close>

definition open_wb :: "env \<Rightarrow> pystr \<Rightarrow> state \<Rightarrow> pystr option \<times> state" where
  "open_wb e p s =
     (case open_error e p of
        Some m \<Rightarrow> (Some m, s)
      | None \<Rightarrow> (None, s\<lparr>files := (files s)(p \<mapsto> []),
                            handles := handles s @ [p],
                            opened := opened s @ [p]\<rparr>))"

definition file_write :: "env \<Rightarrow> pystr \<Rightarrow> bytes \<Rightarrow> state \<Rightarrow> pystr option \<times> state" where
  "file_write e p data s =
     (case write_error e p (file_size s p) of
        Some m \<Rightarrow> (Some m, s)
      | None \<Rightarrow> (None, s\<lparr>files := (files s)(p \<mapsto>
                     (case files s p of None \<Rightarrow> data | Some d \<Rightarrow> d @ data))\<rparr>))"

definition file_close :: "pystr \<Rightarrow> state \<Rightarrow> state" where
  "file_close p s = s\<lparr>handles := remove1 p (handles s)\<rparr>"


section \<open>Reading Content-Length\<close>

text \<open>
  Python's \<open>int(s)\<close> on a string, as CPython 3.11 (Unicode 14) computes it.
  Whitespace is dropped at both ends: the ASCII characters of C's \<open>isspace\<close> (tab to
  carriage return, and the space) and the whitespace characters beyond ASCII; the
  separators U+001C to U+001F, which \<open>str.strip\<close> drops, are not among them. One
  ASCII sign may lead. Then decimal digits follow, those of every script (each script's
  digits are ten consecutive code points, zero first), with single ASCII underscores
  allowed between two digits. Anything else raises \<open>ValueError\<close> (here \<open>None\<close>),
  and so does a number of more than 4300 digits, the default limit of the conversion.
\<close>

definition int_space :: "nat \<Rightarrow> bool" where
  "int_space c = (c \<in> set [9, 10, 11, 12, 13, 32, 133, 160, 5760,
     8192, 8193, 8194, 8195, 8196, 8197, 8198, 8199, 8200, 8201, 8202,
     8232, 8233, 8239, 8287, 12288])"

definition decimal_starts :: "nat list" where
  "decimal_starts = [48, 1632, 1776, 1984, 2406, 2534, 2662, 2790, 2918, 3046, 3174, 3302,
     3430, 3558, 3664, 3792, 3872, 4160, 4240, 6112, 6160, 6470, 6608, 6784, 6800, 6992,
     7088, 7232, 7248, 42528, 43216, 43264, 43472, 43504, 43600, 44016, 65296, 66720,
     68912, 69734, 69872, 69942, 70096, 70384, 70736, 70864, 71248, 71360, 71472, 71904,
     72016, 72784, 73040, 73120, 92768, 92864, 93008, 120782, 120792, 120802, 120812,
     120822, 123200, 123632, 125264, 130032]"

definition decimal_value :: "nat \<Rightarrow> nat option" where
  "decimal_value c =
     (case filter (\<lambda>s. s \<le> c \<and> c < s + 10) decimal_starts of
        [] \<Rightarrow> None
      | s # r \<Rightarrow> Some (c - s))"

definition is_decimal :: "nat \<Rightarrow> bool" where
  "is_decimal c = (decimal_value c \<noteq> None)"

fun digits_value :: "nat \<Rightarrow> pystr \<Rightarrow> nat option" where
  "digits_value acc [] = Some acc"
| "digits_value acc (c # cs) =
     (case decimal_value c of
        Some d \<Rightarrow> digits_value (10 * acc + d) cs
      | None \<Rightarrow>
          if c = 95 then
            (case cs of
               [] \<Rightarrow> None
             | d # ds \<Rightarrow> if is_decimal d then digits_value acc cs else None)
          else None)"

definition py_int :: "pystr \<Rightarrow> int option" where
  "py_int s =
     (let t = rev (dropWhile int_space (rev (dropWhile int_space s)));
          neg = (t \<noteq> [] \<and> hd t = 45);
          ds = (if t \<noteq> [] \<and> (hd t = 45 \<or> hd t = 43) then tl t else t)
      in if ds = [] then None
         else if is_decimal (hd ds) \<and> length (filter is_decimal ds) \<le> 4300 then
           (case digits_value 0 ds of
              None \<Rightarrow> None
            | Some n \<Rightarrow> Some (if neg then - int n else int n))
         else None)"

text \<open>
  Lines 98 to 102. \<open>resp.headers.get('content-length', 0)\<close> is the header's text, or
  the integer 0 when the header is absent; \<open>ValueError\<close> gives 0.
\<close>

definition safe_get_content_length :: "response \<Rightarrow> int" where
  "safe_get_content_length resp =
     (case content_length resp of
        None \<Rightarrow> 0
      | Some h \<Rightarrow> (case py_int h of None \<Rightarrow> 0 | Some n \<Rightarrow> n))"

text \<open>Line 128, \<open>pbar_track.total = total_size or 1\<close>.\<close>

definition set_pbar_total :: "int \<Rightarrow> state \<Rightarrow> state" where
  "set_pbar_total total_size s = s\<lparr>pbar_total := (if total_size = 0 then 1 else total_size)\<rparr>"

section \<open>The download worker\<close>

text \<open>Lines 46 to 52. The error is that of \<open>os.makedirs\<close>, which nothing here catches.\<close>

definition build_expected_filepath ::
  "env \<Rightarrow> pystr \<Rightarrow> pystr \<Rightarrow> state \<Rightarrow> (exc + pystr) \<times> state" where
  "build_expected_filepath e singer_name title s =
     (let singer_clean = sanitize_filename singer_name;
          title_clean = sanitize_filename title;
          filename = singer_clean @ ascii '' - '' @ title_clean @ ascii ''.mp3'';
          folder = os_path_join OUTPUT_DIR singer_clean
      in case os_makedirs e folder s of
           (Some m, s1) \<Rightarrow> (Inl (Exception m), s1)
         | (None, s1) \<Rightarrow> (Inr (os_path_join folder filename), s1))"

text \<open>
  Lines 54 to 67. Opening the file as MP3 or saving it may raise; the function logs
  that and returns normally in every case.
\<close>

definition write_id3_tags :: "env \<Rightarrow> pystr \<Rightarrow> pystr \<Rightarrow> pystr \<Rightarrow> pystr \<Rightarrow> state \<Rightarrow> state" where
  "write_id3_tags e filepath artist title source_url s =
     (case tag_error e filepath of
        Some m \<Rightarrow> log_error (TagError (os_path_basename filepath) m) s
      | None \<Rightarrow> s\<lparr>tags := (tags s)(filepath \<mapsto>
                    \<lparr>tag_artist = artist, tag_title = title,
                     tag_album = artist, tag_comment = source_url\<rparr>)\<rparr>)"

text \<open>
  Lines 151 to 167. The file is opened before \<open>resp.read()\<close> is awaited, so a body
  that fails leaves an empty cover file behind.
\<close>

definition download_cover :: "env \<Rightarrow> pystr \<Rightarrow> pystr option \<Rightarrow> state \<Rightarrow> state" where
  "download_cover e singer_name cover_url s =
     (case cover_url of
        None \<Rightarrow> s
      | Some url \<Rightarrow>
          if url = [] then s
          else
            let singer_clean = sanitize_filename singer_name;
                folder = os_path_join OUTPUT_DIR singer_clean;
                cover_path = os_path_join folder (singer_clean @ ascii ''_cover.jpg'')
            in if os_path_exists s cover_path then s
               else
                 let s1 = s\<lparr>requests := requests s @ [CoverGet url]\<rparr>
                 in case http_get e (length (requests s)) (CoverGet url) of
                      Failed m \<Rightarrow> log_error (CoverError singer_name m) s1
                    | Responded resp \<Rightarrow>
                        if status resp = 200 then
                          (case os_makedirs e folder s1 of
                             (Some m, s2) \<Rightarrow> log_error (CoverError singer_name m) s2
                           | (None, s2) \<Rightarrow>
                               (case open_wb e cover_path s2 of
                                  (Some m, s3) \<Rightarrow> log_error (CoverError singer_name m) s3
                                | (None, s3) \<Rightarrow>
                                    (case body_error resp of
                                       Some m \<Rightarrow>
                                         log_error (CoverError singer_name m)
                                           (file_close cover_path s3)
                                     | None \<Rightarrow>
                                         (case file_write e cover_path (concat (chunks resp)) s3 of
                                            (Some m, s4) \<Rightarrow>
                                              log_error (CoverError singer_name m)
                                                (file_close cover_path s4)
                                          | (None, s4) \<Rightarrow> file_close cover_path s4))))
                        else s1)"

text \<open>
  The block \<open>async with cover_lock: if singer_name not in downloaded_covers and
  cover_url: await download_cover(...)\<close>, which stands at lines 111 to 113 and again at
  lines 140 to 142. \<open>None\<close>: the lock is taken and the worker waits.
\<close>

definition cover_block :: "env \<Rightarrow> pystr \<Rightarrow> pystr option \<Rightarrow> state \<Rightarrow> state option" where
  "cover_block e singer_name cover_url s =
     (if cover_locked s then None
      else
        let s1 = s\<lparr>cover_locked := True\<rparr>;
            s2 = (if singer_name \<notin> downloaded_covers s1 \<and> cover_url \<noteq> None
                     \<and> cover_url \<noteq> Some []
                  then download_cover e singer_name cover_url s1 else s1)
        in Some (s2\<lparr>cover_locked := False\<rparr>))"

text \<open>Lines 134 to 137, the loop over the chunks of the body.\<close>

fun write_chunks :: "env \<Rightarrow> pystr \<Rightarrow> bytes list \<Rightarrow> state \<Rightarrow> pystr option \<times> state" where
  "write_chunks e p [] s = (None, s)"
| "write_chunks e p (c # cs) s =
     (case file_write e p c s of
        (Some m, s1) \<Rightarrow> (Some m, s1)
      | (None, s1) \<Rightarrow> write_chunks e p cs (s1\<lparr>pbar_n := pbar_n s1 + length c\<rparr>))"

text \<open>How a worker ends: it returns a flag or raises. \<open>None\<close> in what follows: it waits.\<close>

datatype outcome = Returned bool | Raised exc

type_synonym track = "pystr \<times> pystr \<times> pystr \<times> pystr option"

text \<open>
  Lines 121 to 149, the \<open>try\<close> block, entered with a permit held. Every
  \<open>Exception\<close> inside it is logged at line 148 and gives \<open>False\<close>.
\<close>

definition track_try_block :: "env \<Rightarrow> track \<Rightarrow> pystr \<Rightarrow> state \<Rightarrow> outcome option \<times> state" where
  "track_try_block e track filepath s =
     (case track of (singer_name, title, mp3_url, cover_url) \<Rightarrow>
        let track_str = singer_name @ ascii '' - '' @ title;
            s1 = s\<lparr>requests := requests s @ [TrackGet mp3_url]\<rparr>
        in case http_get e (length (requests s)) (TrackGet mp3_url) of
             Failed m \<Rightarrow> (Some (Returned False), log_error (DownloadError track_str m) s1)
           | Responded resp \<Rightarrow>
               if status resp \<noteq> 200 then
                 (Some (Returned False), log_error (HttpStatusError (status resp) track_str) s1)
               else
                 let s2 = set_pbar_total (safe_get_content_length resp) s1
                 in case open_wb e filepath s2 of
                      (Some m, s3) \<Rightarrow>
                        (Some (Returned False), log_error (DownloadError track_str m) s3)
                    | (None, s3) \<Rightarrow>
                        (case write_chunks e filepath (chunks resp) s3 of
                           (Some m, s4) \<Rightarrow>
                             (Some (Returned False),
                              log_error (DownloadError track_str m) (file_close filepath s4))
                         | (None, s4) \<Rightarrow>
                             (case body_error resp of
                                Some m \<Rightarrow>
                                  (Some (Returned False),
                                   log_error (DownloadError track_str m) (file_close filepath s4))
                              | None \<Rightarrow>
                                  let s5 = file_close filepath s4
                                  in case cover_block e singer_name cover_url s5 of
                                       None \<Rightarrow> (None, s5)
                                     | Some s6 \<Rightarrow>
                                         (Some (Returned True),
                                          write_id3_tags e filepath singer_name title mp3_url s6))))"

text \<open>
  Lines 104 to 149. \<open>async with semaphore\<close> takes a permit when the counter is
  positive, waits otherwise, and gives the permit back however the block is left.
\<close>

definition download_track :: "env \<Rightarrow> track \<Rightarrow> state \<Rightarrow> outcome option \<times> state" where
  "download_track e track s =
     (case track of (singer_name, title, mp3_url, cover_url) \<Rightarrow>
        case build_expected_filepath e singer_name title s of
          (Inl x, s1) \<Rightarrow> (Some (Raised x), s1)
        | (Inr filepath, s1) \<Rightarrow>
            if os_path_exists s1 filepath then
              (case cover_block e singer_name cover_url s1 of
                 None \<Rightarrow> (None, s1)
               | Some s2 \<Rightarrow> (Some (Returned True), s2))
            else if sem_value s1 = 0 then (None, s1)
            else
              let track_str = singer_name @ ascii '' - '' @ title;
                  s2 = s1\<lparr>sem_value := sem_value s1 - 1,
                          pbar_desc := take 50 track_str, pbar_n := 0\<rparr>
              in case track_try_block e track filepath s2 of
                   (None, s3) \<Rightarrow> (None, s3)
                 | (Some r, s3) \<Rightarrow> (Some r, s3\<lparr>sem_value := sem_value s3 + 1\<rparr>))"


section \<open>The orchestrator's collection loop\<close>

text \<open>
  Lines 285 to 301 of \<open>main\<close>. The loop receives the workers' outcomes in the order in
  which they complete. \<open>except Exception\<close> logs and goes on; an exception that is
  not an \<open>Exception\<close> leaves the loop after the \<open>finally\<close> clause has run.
\<close>

record tally =
  success_count :: nat
  pbar_main :: nat
  task_log :: "log_entry list"

fun collect_results :: "outcome list \<Rightarrow> tally \<Rightarrow> exc option \<times> tally" where
  "collect_results [] t = (None, t)"
| "collect_results (Returned r # rest) t =
     collect_results rest
       (t\<lparr>success_count := (if r then success_count t + 1 else success_count t),
          pbar_main := pbar_main t + 1\<rparr>)"
| "collect_results (Raised (Exception m) # rest) t =
     collect_results rest
       (t\<lparr>task_log := task_log t @ [TaskException m], pbar_main := pbar_main t + 1\<rparr>)"
| "collect_results (Raised (BaseException m) # rest) t =
     (Some (BaseException m), t\<lparr>pbar_main := pbar_main t + 1\<rparr>)"

section \<open>Workers running together\<close>

text \<open>
  The tasks of \<open>main\<close> run interleaved on one event loop and change hands only at an
  \<open>await\<close>. A worker is therefore at one of these places of \<open>download_track\<close>:
  \<^item> \<open>Start\<close>: before line 107;
  \<^item> \<open>CoverOnlyWait\<close>, \<open>CoverOnlyIn\<close>: the file exists; waiting for \<open>cover_lock\<close> at
    line 111, then inside the block of lines 112 and 113;
  \<^item> \<open>PermitWait\<close>: waiting for the semaphore at line 116;
  \<^item> \<open>Requesting\<close>: \<open>session.get\<close> of the track body awaited, line 122;
  \<^item> \<open>Streaming\<close>: the chunks being read and written, lines 127 to 137;
  \<^item> \<open>CoverWait\<close>, \<open>CoverIn\<close>: waiting for \<open>cover_lock\<close> at line 140, then inside
    the block of lines 141 and 142, still within \<open>async with semaphore\<close>;
  \<^item> \<open>Finished\<close>: returned or raised.
  An action is what makes one worker move. \<open>asyncio.Semaphore(6)\<close> grants a permit
  only while its counter is positive and \<open>asyncio.Lock\<close> only while it is free; leaving
  an \<open>async with\<close> block, also by an exception or a cancellation, gives back what
  the block took.
\<close>

datatype pc =
    Start | CoverOnlyWait | CoverOnlyIn | PermitWait | Requesting | Streaming
  | CoverWait | CoverIn | Finished outcome

datatype action =
    PathRaises pystr | FileExists | FileMissing | LockGranted | CoverDone
  | PermitGranted | ResponseBad | ResponseOk | StreamFailed | StreamDone | Cancel

datatype sem_op = SemKeep | SemAcquire | SemRelease

datatype lock_op = LockKeep | LockAcquire | LockRelease

definition cancelled :: outcome where
  "cancelled = Raised (BaseException (ascii ''CancelledError''))"

definition worker_step :: "pc \<Rightarrow> action \<Rightarrow> (pc \<times> sem_op \<times> lock_op) option" where
  "worker_step p a =
     (case p of
        Start \<Rightarrow>
          (case a of
             PathRaises m \<Rightarrow> Some (Finished (Raised (Exception m)), SemKeep, LockKeep)
           | FileExists \<Rightarrow> Some (CoverOnlyWait, SemKeep, LockKeep)
           | FileMissing \<Rightarrow> Some (PermitWait, SemKeep, LockKeep)
           | Cancel \<Rightarrow> Some (Finished cancelled, SemKeep, LockKeep)
           | _ \<Rightarrow> None)
      | CoverOnlyWait \<Rightarrow>
          (case a of
             LockGranted \<Rightarrow> Some (CoverOnlyIn, SemKeep, LockAcquire)
           | Cancel \<Rightarrow> Some (Finished cancelled, SemKeep, LockKeep)
           | _ \<Rightarrow> None)
      | CoverOnlyIn \<Rightarrow>
          (case a of
             CoverDone \<Rightarrow> Some (Finished (Returned True), SemKeep, LockRelease)
           | Cancel \<Rightarrow> Some (Finished cancelled, SemKeep, LockRelease)
           | _ \<Rightarrow> None)
      | PermitWait \<Rightarrow>
          (case a of
             PermitGranted \<Rightarrow> Some (Requesting, SemAcquire, LockKeep)
           | Cancel \<Rightarrow> Some (Finished cancelled, SemKeep, LockKeep)
           | _ \<Rightarrow> None)
      | Requesting \<Rightarrow>
          (case a of
             ResponseBad \<Rightarrow> Some (Finished (Returned False), SemRelease, LockKeep)
           | ResponseOk \<Rightarrow> Some (Streaming, SemKeep, LockKeep)
           | Cancel \<Rightarrow> Some (Finished cancelled, SemRelease, LockKeep)
           | _ \<Rightarrow> None)
      | Streaming \<Rightarrow>
          (case a of
             StreamFailed \<Rightarrow> Some (Finished (Returned False), SemRelease, LockKeep)
           | StreamDone \<Rightarrow> Some (CoverWait, SemKeep, LockKeep)
           | Cancel \<Rightarrow> Some (Finished cancelled, SemRelease, LockKeep)
           | _ \<Rightarrow> None)
      | CoverWait \<Rightarrow>
          (case a of
             LockGranted \<Rightarrow> Some (CoverIn, SemKeep, LockAcquire)
           | Cancel \<Rightarrow> Some (Finished cancelled, SemRelease, LockKeep)
           | _ \<Rightarrow> None)
      | CoverIn \<Rightarrow>
          (case a of
             CoverDone \<Rightarrow> Some (Finished (Returned True), SemRelease, LockRelease)
           | Cancel \<Rightarrow> Some (Finished cancelled, SemRelease, LockRelease)
           | _ \<Rightarrow> None)
      | Finished r \<Rightarrow> None)"

record worker =
  pc :: pc
  permit :: bool

record pool =
  sem :: nat
  lock :: bool
  workers :: "worker list"

text \<open>One step of worker \<open>i\<close>; \<open>None\<close> when the worker cannot move that way now.\<close>

definition step :: "pool \<Rightarrow> nat \<Rightarrow> action \<Rightarrow> pool option" where
  "step S i a =
     (if i < length (workers S) then
        (case worker_step (pc (workers S ! i)) a of
           None \<Rightarrow> None
         | Some (p', so, lo) \<Rightarrow>
             if so = SemAcquire \<and> sem S = 0 then None
             else if lo = LockAcquire \<and> lock S then None
             else Some \<lparr>sem = (case so of SemKeep \<Rightarrow> sem S
                                | SemAcquire \<Rightarrow> sem S - 1
                                | SemRelease \<Rightarrow> sem S + 1),
                        lock = (case lo of LockKeep \<Rightarrow> lock S
                                | LockAcquire \<Rightarrow> True
                                | LockRelease \<Rightarrow> False),
                        workers = (workers S)[i := \<lparr>pc = p',
                          permit = (case so of SemKeep \<Rightarrow> permit (workers S ! i)
                                    | SemAcquire \<Rightarrow> True
                                    | SemRelease \<Rightarrow> False)\<rparr>]\<rparr>)
      else None)"

fun run :: "pool \<Rightarrow> (nat \<times> action) list \<Rightarrow> pool option" where
  "run S [] = Some S"
| "run S ((i, a) # evs) = (case step S i a of None \<Rightarrow> None | Some S' \<Rightarrow> run S' evs)"

text \<open>Line 274 and lines 279 to 283: the semaphore is created full, one task per track.\<close>

definition init :: "nat \<Rightarrow> pool" where
  "init n = \<lparr>sem = MAX_CONCURRENT_DOWNLOADS, lock = False,
             workers = replicate n \<lparr>pc = Start, permit = False\<rparr>\<rparr>"

text \<open>A track-body download is in flight from the request to the last chunk.\<close>

definition in_flight :: "pc \<Rightarrow> bool" where
  "in_flight p = (p = Requesting \<or> p = Streaming)"

section \<open>The interrupt handler\<close>

text \<open>
  Lines 302 to 307 of \<open>main\<close>, entered when \<open>KeyboardInterrupt\<close> is raised inside the
  \<open>try\<close> block of line 286. The tasks of the event loop are the main task, which runs
  \<open>main\<close>, and one task per worker. The main task is at one of these places:
  \<^item> \<open>Collecting\<close>: in the loop of lines 292 to 301;
  \<^item> \<open>Gathering W\<close>: at line 307, awaiting \<open>asyncio.gather\<close> of the tasks \<open>W\<close>;
  \<^item> \<open>Exited\<close>: past line 307; \<open>main\<close> has returned and its task is done.
  \<open>asyncio.all_tasks()\<close> is the set of tasks that are not done; the running task is one
  of them. \<open>task.cancel()\<close> requests a cancellation: the next step of that task is the
  \<open>CancelledError\<close> raised at its \<open>await\<close>, the action \<open>Cancel\<close>. \<open>gather\<close> is done
  when every task it was given is done.
\<close>

datatype task_id = MainTask | WorkerTask nat

datatype main_pc = Collecting | Gathering "task_id list" | Exited

record orchestrator =
  worker_pool :: pool
  main_at :: main_pc
  cancelling :: "nat list"

definition unfinished :: "pc \<Rightarrow> bool" where
  "unfinished p = (case p of Finished r \<Rightarrow> False | _ \<Rightarrow> True)"

definition all_tasks :: "orchestrator \<Rightarrow> task_id list" where
  "all_tasks S =
     (if main_at S = Exited then [] else [MainTask]) @
     map WorkerTask
       (filter (\<lambda>i. unfinished (pc (workers (worker_pool S) ! i)))
          [0..<length (workers (worker_pool S))])"

text \<open>
  Lines 304 to 306: \<open>cancel\<close> is called on every task but the current one. Line 307:
  \<open>all_tasks()\<close> is called again and every task it returns is gathered.
\<close>

definition task_cancel :: "task_id \<Rightarrow> orchestrator \<Rightarrow> orchestrator" where
  "task_cancel t S =
     (case t of
        MainTask \<Rightarrow> S
      | WorkerTask i \<Rightarrow> S\<lparr>cancelling := cancelling S @ [i]\<rparr>)"

definition on_keyboard_interrupt :: "orchestrator \<Rightarrow> orchestrator" where
  "on_keyboard_interrupt S =
     (let S1 = fold task_cancel (filter (\<lambda>t. t \<noteq> MainTask) (all_tasks S)) S
      in S1\<lparr>main_at := Gathering (all_tasks S1)\<rparr>)"

definition task_done :: "orchestrator \<Rightarrow> task_id \<Rightarrow> bool" where
  "task_done S t =
     (case t of
        MainTask \<Rightarrow> main_at S = Exited
      | WorkerTask i \<Rightarrow> \<not> unfinished (pc (workers (worker_pool S) ! i)))"

text \<open>
  \<open>main_resume\<close>: the main task goes on past line 307 once the gathered tasks are done.
  \<open>loop_step\<close>: the event loop lets worker \<open>i\<close> take a step; a worker whose
  cancellation was requested can only take the step \<open>Cancel\<close>.
\<close>

definition main_resume :: "orchestrator \<Rightarrow> orchestrator option" where
  "main_resume S =
     (case main_at S of
        Gathering W \<Rightarrow> if list_all (task_done S) W then Some (S\<lparr>main_at := Exited\<rparr>) else None
      | _ \<Rightarrow> None)"

definition loop_step :: "orchestrator \<Rightarrow> nat \<Rightarrow> action \<Rightarrow> orchestrator option" where
  "loop_step S i a =
     (if i \<in> set (cancelling S) \<and> a \<noteq> Cancel then None
      else (case step (worker_pool S) i a of
              None \<Rightarrow> None
            | Some P \<Rightarrow>
                Some (S\<lparr>worker_pool := P,
                        cancelling := (if a = Cancel then removeAll i (cancelling S)
                                       else cancelling S)\<rparr>)))"

fun loop_run :: "orchestrator \<Rightarrow> (nat \<times> action) list \<Rightarrow> orchestrator option" where
  "loop_run S [] = Some S"
| "loop_run S ((i, a) # evs) =
     (case loop_step S i a of None \<Rightarrow> None | Some S' \<Rightarrow> loop_run S' evs)"

section \<open>Notions used in the proofs\<close>

text \<open>
  \<open>inner s\<close>: every whitespace character of \<open>s\<close> is a single space, followed by a
  character that is not whitespace, and \<open>s\<close> does not end in whitespace. \<open>tidy s\<close>: in
  addition \<open>s\<close> does not begin with whitespace. \<open>occurs pat s\<close>: \<open>pat\<close> is a factor
  of \<open>s\<close>. \<open>holding p\<close>: the places between the semaphore's acquire and release.
\<close>

fun inner :: "pystr \<Rightarrow> bool" where
  "inner [] = True"
| "inner [c] = (\<not> is_space c)"
| "inner (c # d # cs) =
     (if c = 32 then \<not> is_space d \<and> inner (d # cs) else \<not> is_space c \<and> inner (d # cs))"

definition tidy :: "pystr \<Rightarrow> bool" where
  "tidy s = (case s of [] \<Rightarrow> True | c # cs \<Rightarrow> \<not> is_space c \<and> inner s)"

fun occurs :: "pystr \<Rightarrow> pystr \<Rightarrow> bool" where
  "occurs pat [] = (pat = [])"
| "occurs pat (c # cs) = (take (length pat) (c # cs) = pat \<or> occurs pat cs)"

definition holding :: "pc \<Rightarrow> bool" where
  "holding p = (p = Requesting \<or> p = Streaming \<or> p = CoverWait \<or> p = CoverIn)"


text \<open>
  \<open>task_entries\<close>: the log entries that line 298 writes for a list of outcomes.
  \<open>pool_inv\<close>: the permits still in the semaphore and the permits held add up to the
  capacity, and a worker holds a permit exactly between acquire and release.
\<close>

fun task_entries :: "outcome list \<Rightarrow> log_entry list" where
  "task_entries [] = []"
| "task_entries (Returned r # rest) = task_entries rest"
| "task_entries (Raised (Exception m) # rest) = TaskException m # task_entries rest"
| "task_entries (Raised (BaseException m) # rest) = task_entries rest"

definition pool_inv :: "pool \<Rightarrow> bool" where
  "pool_inv S = (sem S + length (filter permit (workers S)) = MAX_CONCURRENT_DOWNLOADS \<and>
     (\<forall>w\<in>set (workers S). permit w = holding (pc w)))"

section \<open>Example worlds\<close>

text \<open>
  Concrete inputs for the closed theorems: a server that answers every request with the
  same status and Content-Length, a fresh output directory, an output directory that
  already holds two tracks of artist \<open>A\<close>, and these two tracks, which share one cover URL.
\<close>

definition world :: "int \<Rightarrow> pystr option \<Rightarrow> pystr option \<Rightarrow> env" where
  "world st cl tag_err =
     \<lparr>http_get = (\<lambda>n r. Responded \<lparr>status = st, content_length = cl,
                                      chunks = [[73, 68, 51], [0]], body_error = None\<rparr>),
      makedirs_error = (\<lambda>p. None), open_error = (\<lambda>p. None),
      write_error = (\<lambda>p n. None), tag_error = (\<lambda>p. tag_err)\<rparr>"

definition empty_disk :: state where
  "empty_disk =
     \<lparr>files = Map.empty, dirs = {OUTPUT_DIR}, downloaded_covers = {},
      sem_value = MAX_CONCURRENT_DOWNLOADS, cover_locked = False, requests = [],
      handles = [], opened = [], error_log = [], tags = Map.empty,
      pbar_desc = [8212], pbar_total = 1, pbar_n = 0\<rparr>"

definition track_x :: track where
  "track_x = (ascii ''A'', ascii ''x'', ascii ''u/x.mp3'', Some (ascii ''u/c.jpg''))"

definition track_y :: track where
  "track_y = (ascii ''A'', ascii ''y'', ascii ''u/y.mp3'', Some (ascii ''u/c.jpg''))"

definition full_disk :: state where
  "full_disk = empty_disk
     \<lparr>files := [ascii ''tarat_tracks/A/A - x.mp3'' \<mapsto> [73],
                ascii ''tarat_tracks/A/A - y.mp3'' \<mapsto> [73]],
      dirs := {OUTPUT_DIR, ascii ''tarat_tracks/A''}\<rparr>"

text \<open>
  Three workers at the moment of an interrupt: one streaming a body, one waiting for the
  cover lock with its permit, one finished.
\<close>

definition busy_pool :: pool where
  "busy_pool = \<lparr>sem = 4, lock = False,
     workers = [\<lparr>pc = Streaming, permit = True\<rparr>, \<lparr>pc = CoverWait, permit = True\<rparr>,
                \<lparr>pc = Finished (Returned True), permit = False\<rparr>]\<rparr>"

section \<open>Sanitizing is idempotent\<close>

lemma is_space_32 [simp]: "is_space 32"
  by (simp add: is_space_def)

lemma not_space_45 [simp]: "\<not> is_space 45"
  by (simp add: is_space_def)

lemma split_from_nonempty: "(split_from w s = []) = (w = [] \<and> (\<forall>c\<in>set s. is_space c))"
  by (induction s arbitrary: w) auto

lemma join_split_tidy:
  "inner s \<Longrightarrow> \<forall>c\<in>set w. \<not> is_space c \<Longrightarrow> w \<noteq> [] \<or> s = [] \<or> \<not> is_space (hd s)
   \<Longrightarrow> py_join [32] (split_from w s) = w @ s"
proof (induction s arbitrary: w rule: inner.induct)
  case 1
  then show ?case by simp
next
  case (2 c)
  then show ?case by simp
next
  case (3 c d cs)
  show ?case
  proof (cases "c = 32")
    case True
    with 3 have w: "w \<noteq> []" and d: "\<not> is_space d" and i: "inner (d # cs)" by auto
    have "py_join [32] (split_from [] (d # cs)) = [] @ (d # cs)"
      by (rule 3(1)[OF True i]) (use d in auto)
    moreover have "split_from [] (d # cs) \<noteq> []"
      using d by (auto simp: split_from_nonempty)
    ultimately show ?thesis using True w
      by (cases "split_from [] (d # cs)") (auto simp del: split_from.simps simp add: split_from.simps(2)[of w 32])
  next
    case False
    with 3 have c: "\<not> is_space c" and i: "inner (d # cs)" by auto
    have "py_join [32] (split_from (w @ [c]) (d # cs)) = (w @ [c]) @ (d # cs)"
      by (rule 3(2)[OF False i]) (use 3(4) c in auto)
    then show ?thesis using c by simp
  qed
qed

lemma inner_tl: "inner (c # cs) \<Longrightarrow> inner cs"
  by (cases cs) (auto split: if_splits)

lemma inner_Cons_nonspace: "\<not> is_space c \<Longrightarrow> inner (c # t) = inner t"
  by (cases t) auto

lemma inner_Cons_space:
  "is_space c \<Longrightarrow> inner (c # t) = (c = 32 \<and> t \<noteq> [] \<and> \<not> is_space (hd t) \<and> inner t)"
  by (cases t) auto

lemma inner_append_word: "\<forall>c\<in>set w. \<not> is_space c \<Longrightarrow> inner (w @ t) = inner t"
  by (induction w) (auto simp: inner_Cons_nonspace simp del: inner.simps)

lemma inner_last: "inner s \<Longrightarrow> s \<noteq> [] \<Longrightarrow> \<not> is_space (last s)"
proof (induction s rule: inner.induct)
  case 1
  then show ?case by simp
next
  case (2 c)
  then show ?case by simp
next
  case (3 c d cs)
  from 3(3) have "inner (d # cs)" by (rule inner_tl)
  then have "\<not> is_space (last (d # cs))"
    by (cases "c = 32") (use 3 in \<open>simp_all del: inner.simps\<close>)
  then show ?case by simp
qed

lemma split_from_word:
  "\<forall>c\<in>set w. \<not> is_space c \<Longrightarrow> v \<in> set (split_from w s) \<Longrightarrow>
   v \<noteq> [] \<and> (\<forall>c\<in>set v. \<not> is_space c)"
proof (induction s arbitrary: w)
  case Nil
  then show ?case by (cases "w = []") simp_all
next
  case (Cons a s)
  show ?case
  proof (cases "is_space a")
    case True
    show ?thesis
    proof (cases "w = []")
      case True
      with \<open>is_space a\<close> Cons.prems(2) have "v \<in> set (split_from [] s)" by simp
      then show ?thesis by (rule Cons.IH[rotated]) simp
    next
      case False
      with \<open>is_space a\<close> Cons.prems(2) have "v = w \<or> v \<in> set (split_from [] s)" by simp
      then show ?thesis
      proof
        assume "v = w"
        then show ?thesis using False Cons.prems(1) by simp
      next
        assume "v \<in> set (split_from [] s)"
        then show ?thesis by (rule Cons.IH[rotated]) simp
      qed
    qed
  next
    case False
    with Cons.prems(2) have "v \<in> set (split_from (w @ [a]) s)" by simp
    then show ?thesis by (rule Cons.IH[rotated]) (use False Cons.prems(1) in simp)
  qed
qed

lemma split_from_words:
  "\<forall>c\<in>set w. \<not> is_space c \<Longrightarrow>
   \<forall>v\<in>set (split_from w s). v \<noteq> [] \<and> (\<forall>c\<in>set v. \<not> is_space c)"
  using split_from_word by blast

lemma join_words_tidy:
  "\<forall>v\<in>set ws. v \<noteq> [] \<and> (\<forall>c\<in>set v. \<not> is_space c) \<Longrightarrow>
   inner (py_join [32] ws) \<and> (ws \<noteq> [] \<longrightarrow> py_join [32] ws \<noteq> [] \<and> \<not> is_space (hd (py_join [32] ws)))"
proof (induction "[32::nat]" ws rule: py_join.induct)
  case 1
  then show ?case by simp
next
  case (2 w)
  then show ?case using inner_append_word[of w "[]"] by (cases w) auto
next
  case (3 w v ws)
  then have ih: "inner (py_join [32] (v # ws))" "py_join [32] (v # ws) \<noteq> []"
      "\<not> is_space (hd (py_join [32] (v # ws)))" by auto
  from 3 have w: "w \<noteq> []" "\<forall>c\<in>set w. \<not> is_space c" by auto
  have "inner (w @ 32 # py_join [32] (v # ws))"
    using ih w by (simp add: inner_append_word inner_Cons_space del: inner.simps)
  then show ?case using w by (cases w) auto
qed


lemma dropWhile_rev_last: "s \<noteq> [] \<Longrightarrow> \<not> P (last s) \<Longrightarrow> dropWhile P (rev s) = rev s"
  by (induction s rule: rev_induct) auto

lemma strip_tidy: "tidy s \<Longrightarrow> py_strip s = s"
proof (cases s)
  case Nil
  then show ?thesis by (simp add: py_strip_def)
next
  case (Cons c cs)
  assume "tidy s"
  with Cons have h: "\<not> is_space c" and l: "\<not> is_space (last s)"
    using inner_last[of s] by (auto simp: tidy_def)
  have "dropWhile is_space s = s" using Cons h by simp
  moreover have "dropWhile is_space (rev s) = rev s"
    using l Cons by (intro dropWhile_rev_last) auto
  ultimately show ?thesis by (simp add: py_strip_def)
qed


lemma tidy_normalise: "tidy (py_join [32] (py_split s))"
proof -
  define ws where "ws = py_split s"
  have "\<forall>v\<in>set ws. v \<noteq> [] \<and> (\<forall>c\<in>set v. \<not> is_space c)"
    unfolding ws_def py_split_def by (rule split_from_words) simp
  from join_words_tidy[OF this]
  have i: "inner (py_join [32] ws)"
    and h: "ws \<noteq> [] \<Longrightarrow> \<not> is_space (hd (py_join [32] ws))" by simp_all
  have "tidy (py_join [32] ws)"
  proof (cases "py_join [32] ws")
    case Nil
    then show ?thesis by (simp add: tidy_def)
  next
    case (Cons c cs)
    then have "ws \<noteq> []" by auto
    from h[OF this] Cons i show ?thesis by (simp add: tidy_def)
  qed
  then show ?thesis by (simp add: ws_def)
qed

lemma normalise_tidy: "tidy s \<Longrightarrow> py_join [32] (py_split s) = s"
proof -
  assume t: "tidy s"
  then have "inner s" and "s = [] \<or> \<not> is_space (hd s)"
    by (cases s; simp add: tidy_def)+
  then have "py_join [32] (split_from [] s) = [] @ s"
    by (intro join_split_tidy) auto
  then show ?thesis by (simp add: py_split_def)
qed

lemma replace_Nil: "old \<noteq> [] \<Longrightarrow> py_replace old new [] = []"
  by (simp add: py_replace.simps)

lemma replace_match:
  "old \<noteq> [] \<Longrightarrow> take (length old) s = old \<Longrightarrow>
   py_replace old new s = new @ py_replace old new (drop (length old) s)"
  by (subst py_replace.simps) auto

lemma replace_skip:
  "old \<noteq> [] \<Longrightarrow> take (length old) (c # cs) \<noteq> old \<Longrightarrow>
   py_replace old new (c # cs) = c # py_replace old new cs"
  by (subst py_replace.simps) auto

lemma replace_absent: "old \<noteq> [] \<Longrightarrow> \<not> occurs old s \<Longrightarrow> py_replace old new s = s"
  by (induction s) (auto simp: replace_Nil replace_skip)

lemma set_replace: "old \<noteq> [] \<Longrightarrow> set (py_replace old new s) \<subseteq> set s \<union> set new"
proof (induction old new s rule: py_replace.induct)
  case (1 old new s)
  show ?case
  proof (cases s)
    case Nil
    then show ?thesis using 1(3) by (simp add: replace_Nil)
  next
    case (Cons c cs)
    show ?thesis
    proof (cases "take (length old) s = old")
      case True
      have "set (py_replace old new (drop (length old) s)) \<subseteq> set (drop (length old) s) \<union> set new"
        using 1(1)[OF 1(3) _ True 1(3)] Cons by simp
      moreover have "set (drop (length old) s) \<subseteq> set s" by (rule set_drop_subset)
      ultimately show ?thesis using True 1(3) by (auto simp: replace_match)
    next
      case False
      have "set (py_replace old new (tl s)) \<subseteq> set (tl s) \<union> set new"
        using 1(2)[OF 1(3) _ False 1(3)] Cons by simp
      then show ?thesis using False Cons 1(3) by (auto simp: replace_skip)
    qed
  qed
qed


lemma inner_drop: "inner s \<Longrightarrow> inner (drop n s)"
proof (induction n arbitrary: s)
  case 0
  then show ?case by simp
next
  case (Suc n)
  show ?case
  proof (cases s)
    case Nil
    then show ?thesis by simp
  next
    case (Cons c cs)
    with Suc.prems have "inner cs" using inner_tl by blast
    then show ?thesis using Suc.IH Cons by simp
  qed
qed

lemma replace3_match:
  "take 3 s = [32, x, 32] \<Longrightarrow>
   py_replace [32, x, 32] [45] s = 45 # py_replace [32, x, 32] [45] (drop 3 s)"
  using replace_match[of "[32, x, 32]" s "[45]"] by (simp add: numeral_3_eq_3)

lemma replace3_skip:
  "take 3 (c # cs) \<noteq> [32, x, 32] \<Longrightarrow>
   py_replace [32, x, 32] [45] (c # cs) = c # py_replace [32, x, 32] [45] cs"
  using replace_skip[of "[32, x, 32]" c cs "[45]"] by (simp add: numeral_3_eq_3 numeral_2_eq_2)

lemma replace3_skip_nonspace:
  "\<not> is_space c \<Longrightarrow>
   py_replace [32, x, 32] [45] (c # cs) = c # py_replace [32, x, 32] [45] cs"
  by (rule replace3_skip) (auto simp: numeral_3_eq_3)

lemma replace3_Nil: "py_replace [32, x, 32] [45] [] = []"
  by (simp add: replace_Nil)

lemma replace_head:
  assumes "\<not> is_space x" and "inner s"
    and "take 3 (py_replace [32, x, 32] [45] s) = [32, y, 32]"
  shows "take 3 s = [32, y, 32]"
proof -
  obtain c cs where s: "s = c # cs"
    using assms(3) by (cases s) (auto simp: replace3_Nil)
  have nm: "take 3 (c # cs) \<noteq> [32, x, 32]"
  proof
    assume "take 3 (c # cs) = [32, x, 32]"
    from replace3_match[OF this] assms(3) s show False by (simp add: numeral_3_eq_3)
  qed
  from replace3_skip[OF nm] assms(3) s
  have c: "c = 32" and r1: "take 2 (py_replace [32, x, 32] [45] cs) = [y, 32]"
    by (simp_all add: numeral_3_eq_3 numeral_2_eq_2)
  obtain d ds where cs: "cs = d # ds" and d: "\<not> is_space d" and i: "inner (d # ds)"
    using assms(2) s c by (cases cs) (auto simp: inner_Cons_space simp del: inner.simps)
  from replace3_skip_nonspace[OF d] r1 cs
  have d': "d = y" and r2: "take 1 (py_replace [32, x, 32] [45] ds) = [32]"
    by (simp_all add: numeral_2_eq_2)
  obtain e es where ds: "ds = e # es"
    using r2 by (cases ds) (auto simp: replace3_Nil)
  have "e = 32"
  proof (cases "take 3 (e # es) = [32, x, 32]")
    case True
    then show ?thesis by (simp add: numeral_3_eq_3)
  next
    case False
    from replace3_skip[OF this] r2 ds show ?thesis by simp
  qed
  then show ?thesis using s c cs d' ds by (simp add: numeral_3_eq_3)
qed

lemma inner_replace:
  "\<not> is_space x \<Longrightarrow> inner s \<Longrightarrow> inner (py_replace [32, x, 32] [45] s)"
proof (induction s rule: length_induct)
  case (1 s)
  show ?case
  proof (cases s)
    case Nil
    then show ?thesis by (simp add: replace3_Nil)
  next
    case (Cons c cs)
    show ?thesis
    proof (cases "take 3 (c # cs) = [32, x, 32]")
      case True
      then obtain r where cs: "cs = x # 32 # r" and c: "c = 32"
        by (cases cs; cases "tl cs") (auto simp: numeral_3_eq_3)
      have "inner r"
        using inner_drop[OF 1(3), of 3] Cons cs by (simp add: numeral_3_eq_3)
      then have "inner (py_replace [32, x, 32] [45] r)"
        using 1(1) 1(2) Cons cs by simp
      then have "inner (45 # py_replace [32, x, 32] [45] r)"
        by (simp add: inner_Cons_nonspace del: inner.simps)
      moreover have "py_replace [32, x, 32] [45] s = 45 # py_replace [32, x, 32] [45] r"
        using replace3_match[of s x] Cons cs c by (simp add: numeral_3_eq_3)
      ultimately show ?thesis by simp
    next
      case False
      have ih: "inner (py_replace [32, x, 32] [45] cs)"
        using 1 Cons inner_tl[of c cs] by simp
      have eq: "py_replace [32, x, 32] [45] s = c # py_replace [32, x, 32] [45] cs"
        using replace3_skip[OF False] Cons by simp
      show ?thesis
      proof (cases "is_space c")
        case sp: True
        then obtain d ds where cs: "cs = d # ds" and d: "\<not> is_space d" and c: "c = 32"
          using 1(3) Cons by (cases cs) (auto simp: inner_Cons_space simp del: inner.simps)
        have "py_replace [32, x, 32] [45] cs = d # py_replace [32, x, 32] [45] ds"
          using replace3_skip_nonspace[OF d] cs by simp
        then show ?thesis using eq ih c d
          by (simp add: inner_Cons_space del: inner.simps)
      next
        case nsp: False
        then show ?thesis using eq ih
          by (simp add: inner_Cons_nonspace del: inner.simps)
      qed
    qed
  qed
qed

lemma occurs_Cons3:
  "occurs [a, b, c] (d # ds) = (take 3 (d # ds) = [a, b, c] \<or> occurs [a, b, c] ds)"
  by (simp add: numeral_3_eq_3)

lemma occurs_replace:
  "\<not> is_space x \<Longrightarrow> inner s \<Longrightarrow> y = x \<or> \<not> occurs [32, y, 32] s \<Longrightarrow>
   \<not> occurs [32, y, 32] (py_replace [32, x, 32] [45] s)"
proof (induction s rule: length_induct)
  case (1 s)
  have IH: "\<not> occurs [32, y, 32] (py_replace [32, x, 32] [45] ys)"
    if "length ys < length s" "inner ys" "y = x \<or> \<not> occurs [32, y, 32] ys" for ys
    using 1(1) 1(2) that by blast
  show ?case
  proof (cases s)
    case Nil
    then show ?thesis by (simp add: replace3_Nil)
  next
    case (Cons c cs)
    show ?thesis
    proof (cases "take 3 (c # cs) = [32, x, 32]")
      case True
      then obtain r where cs: "cs = x # 32 # r" and c: "c = 32"
        by (cases cs; cases "tl cs") (auto simp: numeral_3_eq_3)
      have "inner r"
        using inner_drop[OF 1(3), of 3] Cons cs by (simp add: numeral_3_eq_3)
      moreover have "y = x \<or> \<not> occurs [32, y, 32] r"
        using 1(4) Cons cs by auto
      ultimately have "\<not> occurs [32, y, 32] (py_replace [32, x, 32] [45] r)"
        using Cons cs by (intro IH) simp_all
      moreover have "py_replace [32, x, 32] [45] s = 45 # py_replace [32, x, 32] [45] r"
        using replace3_match[of s x] Cons cs c by (simp add: numeral_3_eq_3)
      ultimately show ?thesis by (simp add: numeral_3_eq_3)
    next
      case False
      have "y = x \<or> \<not> occurs [32, y, 32] cs"
        using 1(4) Cons by auto
      then have ih: "\<not> occurs [32, y, 32] (py_replace [32, x, 32] [45] cs)"
        using 1(3) Cons inner_tl[of c cs] by (intro IH) simp_all
      have eq: "py_replace [32, x, 32] [45] s = c # py_replace [32, x, 32] [45] cs"
        using replace3_skip[OF False] Cons by simp
      have "take 3 (py_replace [32, x, 32] [45] s) \<noteq> [32, y, 32]"
      proof
        assume "take 3 (py_replace [32, x, 32] [45] s) = [32, y, 32]"
        from replace_head[OF 1(2) 1(3) this] have h: "take 3 s = [32, y, 32]" .
        from 1(4) show False
        proof
          assume "y = x"
          with h False Cons show False by simp
        next
          assume "\<not> occurs [32, y, 32] s"
          with h Cons show False by (simp add: numeral_3_eq_3 numeral_2_eq_2)
        qed
      qed
      then show ?thesis using eq ih by (simp add: occurs_Cons3 del: occurs.simps)
    qed
  qed
qed

lemma tidy_inner: "tidy s \<Longrightarrow> inner s"
  by (cases s) (simp_all add: tidy_def)

lemma tidy_replace:
  assumes "\<not> is_space x" and "tidy s"
  shows "tidy (py_replace [32, x, 32] [45] s)"
proof (cases s)
  case Nil
  then show ?thesis by (simp add: replace3_Nil tidy_def)
next
  case (Cons c cs)
  with assms(2) have c: "\<not> is_space c" and i: "inner s" by (simp_all add: tidy_def)
  have "py_replace [32, x, 32] [45] s = c # py_replace [32, x, 32] [45] cs"
    using replace3_skip_nonspace[OF c] Cons by simp
  moreover have "inner (py_replace [32, x, 32] [45] s)"
    using assms(1) i by (rule inner_replace)
  ultimately show ?thesis using c by (simp add: tidy_def)
qed

lemma set_strip: "set (py_strip s) \<subseteq> set s"
proof -
  have "set (py_strip s) \<subseteq> set (dropWhile is_space s)"
    unfolding py_strip_def using set_dropWhileD[of _ is_space "rev (dropWhile is_space s)"]
    by auto
  then show ?thesis using set_dropWhileD[of _ is_space s] by blast
qed

lemma set_split_from: "v \<in> set (split_from w s) \<Longrightarrow> set v \<subseteq> set w \<union> set s"
proof (induction s arbitrary: w)
  case Nil
  then show ?case by (cases "w = []") simp_all
next
  case (Cons a s)
  show ?case
  proof (cases "is_space a")
    case True
    with Cons.prems have "v = w \<or> v \<in> set (split_from [] s)"
      by (cases "w = []") simp_all
    then show ?thesis using Cons.IH[of "[]"] by auto
  next
    case False
    with Cons.prems have "v \<in> set (split_from (w @ [a]) s)" by simp
    from Cons.IH[OF this] show ?thesis by auto
  qed
qed

lemma set_join: "set (py_join sep ws) \<subseteq> set sep \<union> \<Union> (set ` set ws)"
  by (induction sep ws rule: py_join.induct) auto

lemmas eval_str = ascii_def sanitize_filename_def py_strip_def is_space_def reserved_chars_def
  py_split_def replace_Nil replace_match replace_skip

text \<open>
  C8. For every string \<open>x\<close>, sanitizing the sanitized string changes nothing, and the
  sanitized string contains none of the nine reserved characters
  \<open>< > : " / \ | ? *\<close>.
\<close>

theorem sanitize_filename_idempotent:
  "sanitize_filename (sanitize_filename x) = sanitize_filename x \<and>
   set (sanitize_filename x) \<inter> set reserved_chars = {}"
proof -
  define f where "f = filter (\<lambda>c. c \<notin> set reserved_chars) x"
  define n where "n = py_join [32] (py_split (py_strip f))"
  define r1 where "r1 = py_replace [32, 45, 32] [45] n"
  define r where "r = py_replace [32, 8211, 32] [45] r1"
  have r: "sanitize_filename x = r"
    by (simp add: sanitize_filename_def r_def r1_def n_def f_def)
  have sp: "\<not> is_space 45" "\<not> is_space 8211" by (simp_all add: is_space_def)
  have tn: "tidy n" unfolding n_def by (rule tidy_normalise)
  have t1: "tidy r1" unfolding r1_def using sp(1) tn by (rule tidy_replace)
  have tr: "tidy r" unfolding r_def using sp(2) t1 by (rule tidy_replace)
  have in1: "inner n" "inner r1"
    using tn t1 by (simp_all add: tidy_inner)
  have o1: "\<not> occurs [32, 45, 32] r1"
    unfolding r1_def using sp(1) in1(1) by (rule occurs_replace) simp
  have o2: "\<not> occurs [32, 45, 32] r"
    unfolding r_def using sp(2) in1(2) o1 by (intro occurs_replace) simp_all
  have o3: "\<not> occurs [32, 8211, 32] r"
    unfolding r_def using sp(2) in1(2) by (rule occurs_replace) simp
  have "set f \<inter> set reserved_chars = {}" by (auto simp: f_def)
  moreover have "set n \<subseteq> set f \<union> {32}"
  proof -
    have "\<Union> (set ` set (py_split (py_strip f))) \<subseteq> set (py_strip f)"
      unfolding py_split_def using set_split_from[of _ "[]" "py_strip f"] by auto
    then show ?thesis unfolding n_def
      using set_join[of "[32]" "py_split (py_strip f)"] set_strip[of f] by (simp add: subset_iff) blast
  qed
  moreover have "set r1 \<subseteq> set n \<union> {45}"
    unfolding r1_def using set_replace[of "[32, 45, 32]" "[45]" n] by simp
  moreover have "set r \<subseteq> set r1 \<union> {45}"
    unfolding r_def using set_replace[of "[32, 8211, 32]" "[45]" r1] by simp
  moreover have "32 \<notin> set reserved_chars" "45 \<notin> set reserved_chars"
    by (simp_all add: reserved_chars_def)
  ultimately have res: "set r \<inter> set reserved_chars = {}" by blast
  then have "filter (\<lambda>c. c \<notin> set reserved_chars) r = r"
    by (intro filter_True) auto
  moreover have "py_strip r = r" using tr by (rule strip_tidy)
  moreover have "py_join [32] (py_split r) = r" using tr by (rule normalise_tidy)
  moreover have "py_replace [32, 45, 32] [45] r = r" using o2 by (intro replace_absent) simp_all
  moreover have "py_replace [32, 8211, 32] [45] r = r" using o3 by (intro replace_absent) simp_all
  ultimately have "sanitize_filename r = r" by (simp add: sanitize_filename_def)
  then show ?thesis using r res by simp
qed

theorem sanitize_filename_idempotent_witness:
  "sanitize_filename (ascii '' AC/DC  -  Back: In'' @ [32, 8211, 32] @ ascii ''Black? '')
     = ascii ''ACDC-Back In-Black'' \<and>
   sanitize_filename (ascii ''ACDC-Back In-Black'') = ascii ''ACDC-Back In-Black'' \<and>
   set (ascii ''ACDC-Back In-Black'') \<inter> set reserved_chars = {}"
proof -
  have v: "sanitize_filename (ascii '' AC/DC  -  Back: In'' @ [32, 8211, 32] @ ascii ''Black? '')
      = ascii ''ACDC-Back In-Black''"
    by (simp add: eval_str)
  show ?thesis
    using sanitize_filename_idempotent
      [of "ascii '' AC/DC  -  Back: In'' @ [32, 8211, 32] @ ascii ''Black? ''"]
    unfolding v by simp
qed

section \<open>Names that sanitize to nothing\<close>

lemma strip_all_space: "\<forall>c\<in>set s. is_space c \<Longrightarrow> py_strip s = []"
proof -
  assume "\<forall>c\<in>set s. is_space c"
  then have d: "dropWhile is_space s = []" by (induction s) simp_all
  show ?thesis unfolding py_strip_def d by simp
qed

text \<open>
  C10. A name made only of reserved characters and whitespace sanitizes to the empty
  string. With such an artist name the directory is \<open>OUTPUT_DIR/\<close> itself and the
  destination is the file \<open>" - <title>.mp3"\<close> directly under the output directory
  (whenever \<open>os.makedirs\<close> does not raise).
\<close>

theorem sanitize_empty_path:
  assumes "\<forall>c\<in>set name. c \<in> set reserved_chars \<or> is_space c"
  shows "sanitize_filename name = []
    \<and> build_expected_filepath e name title s =
        (case os_makedirs e (OUTPUT_DIR @ [47]) s of
           (Some m, s1) \<Rightarrow> (Inl (Exception m), s1)
         | (None, s1) \<Rightarrow>
             (Inr (OUTPUT_DIR @ [47] @ ascii '' - '' @ sanitize_filename title @ ascii ''.mp3''), s1))"
proof -
  have "\<forall>c\<in>set (filter (\<lambda>c. c \<notin> set reserved_chars) name). is_space c"
    using assms by auto
  then have "py_strip (filter (\<lambda>c. c \<notin> set reserved_chars) name) = []"
    by (rule strip_all_space)
  then have e: "sanitize_filename name = []"
    by (simp add: sanitize_filename_def py_split_def replace_Nil)
  have j1: "os_path_join OUTPUT_DIR [] = OUTPUT_DIR @ [47]"
    by (simp add: os_path_join_def OUTPUT_DIR_def ascii_def)
  have j2: "os_path_join (OUTPUT_DIR @ [47]) (ascii '' - '' @ x) = OUTPUT_DIR @ [47] @ ascii '' - '' @ x" for x
    by (simp add: os_path_join_def ascii_def)
  show ?thesis
    by (simp add: e build_expected_filepath_def Let_def j1 j2 split: prod.splits option.splits)
qed

theorem sanitize_empty_path_witness:
  "sanitize_filename (ascii ''???'') = []
   \<and> build_expected_filepath (world 404 None None) (ascii ''???'') (ascii ''???'') empty_disk
     = (Inr (ascii ''tarat_tracks/ - .mp3''),
        empty_disk\<lparr>dirs := {ascii ''tarat_tracks/'', OUTPUT_DIR}\<rparr>)"
proof -
  have h: "\<forall>c\<in>set (ascii ''???''). c \<in> set reserved_chars \<or> is_space c"
    by (simp add: ascii_def reserved_chars_def)
  have m: "os_makedirs (world 404 None None) (OUTPUT_DIR @ [47]) empty_disk
      = (None, empty_disk\<lparr>dirs := {ascii ''tarat_tracks/'', OUTPUT_DIR}\<rparr>)"
    by (simp add: os_makedirs_def world_def empty_disk_def OUTPUT_DIR_def ascii_def)
  from sanitize_empty_path[OF h, of "world 404 None None" "ascii ''???''" empty_disk]
  show ?thesis
    by (simp add: m) (simp add: OUTPUT_DIR_def ascii_def)
qed

section \<open>Facts about the worker's steps\<close>

lemma build_frame:
  "build_expected_filepath e a b s = (r, s1) \<Longrightarrow> \<exists>D. s1 = s\<lparr>dirs := D\<rparr>"
  by (auto simp: build_expected_filepath_def Let_def os_makedirs_def
      split: if_splits option.splits intro: exI[of _ "dirs s"])

lemma write_chunks_ok:
  "\<forall>n. write_error e p n = None \<Longrightarrow>
   \<exists>s'. write_chunks e p cs s = (None, s') \<and> cover_locked s' = cover_locked s
     \<and> sem_value s' = sem_value s"
proof (induction cs arbitrary: s)
  case Nil
  then show ?case by simp
next
  case (Cons c cs)
  have w: "file_write e p c s = (None, s\<lparr>files := (files s)(p \<mapsto>
              (case files s p of None \<Rightarrow> c | Some d \<Rightarrow> d @ c))\<rparr>)"
    using Cons.prems by (simp add: file_write_def)
  define s2 where "s2 = s\<lparr>files := (files s)(p \<mapsto>
              (case files s p of None \<Rightarrow> c | Some d \<Rightarrow> d @ c)), pbar_n := pbar_n s + length c\<rparr>"
  obtain s' where "write_chunks e p cs s2 = (None, s')" "cover_locked s' = cover_locked s2"
      "sem_value s' = sem_value s2"
    using Cons.IH[OF Cons.prems, of s2] by blast
  then show ?case by (simp add: w s2_def)
qed

lemma cover_block_free:
  "\<not> cover_locked s \<Longrightarrow> \<exists>s'. cover_block e n cu s = Some s'"
  by (simp add: cover_block_def Let_def)

subsection \<open>The example worlds, evaluated\<close>

lemma san_A: "sanitize_filename (ascii ''A'') = ascii ''A''"
  and san_x: "sanitize_filename (ascii ''x'') = ascii ''x''"
  and san_y: "sanitize_filename (ascii ''y'') = ascii ''y''"
  by (simp_all add: eval_str)

lemma folder_A: "os_path_join OUTPUT_DIR (ascii ''A'') = ascii ''tarat_tracks/A''"
  by (simp add: os_path_join_def OUTPUT_DIR_def ascii_def)

lemma path_A:
  "os_path_join (ascii ''tarat_tracks/A'') (ascii ''A'' @ ascii '' - '' @ ascii ''x'' @ ascii ''.mp3'')
     = ascii ''tarat_tracks/A/A - x.mp3''"
  "os_path_join (ascii ''tarat_tracks/A'') (ascii ''A'' @ ascii '' - '' @ ascii ''y'' @ ascii ''.mp3'')
     = ascii ''tarat_tracks/A/A - y.mp3''"
  "os_path_join (ascii ''tarat_tracks/A'') (ascii ''A'' @ ascii ''_cover.jpg'')
     = ascii ''tarat_tracks/A/A_cover.jpg''"
  by (simp_all add: os_path_join_def ascii_def)

lemma build_empty_x:
  "build_expected_filepath (world st cl te) (ascii ''A'') (ascii ''x'') empty_disk
     = (Inr (ascii ''tarat_tracks/A/A - x.mp3''),
        empty_disk\<lparr>dirs := {ascii ''tarat_tracks/A'', OUTPUT_DIR}\<rparr>)"
  by (simp add: build_expected_filepath_def Let_def san_A san_x folder_A path_A os_makedirs_def
      world_def empty_disk_def)
    (simp add: OUTPUT_DIR_def ascii_def)

lemma build_full:
  "build_expected_filepath (world st cl te) (ascii ''A'') (ascii ''x'') full_disk
     = (Inr (ascii ''tarat_tracks/A/A - x.mp3''), full_disk)"
  "build_expected_filepath (world st cl te) (ascii ''A'') (ascii ''y'') full_disk
     = (Inr (ascii ''tarat_tracks/A/A - y.mp3''), full_disk)"
  by (simp_all add: build_expected_filepath_def Let_def san_A san_x san_y folder_A path_A
      os_makedirs_def world_def full_disk_def empty_disk_def)

lemma exists_full:
  "os_path_exists full_disk (ascii ''tarat_tracks/A/A - x.mp3'')"
  "os_path_exists full_disk (ascii ''tarat_tracks/A/A - y.mp3'')"
  by (simp_all add: os_path_exists_def full_disk_def empty_disk_def ascii_def)

lemma empty_x_facts:
  "\<not> os_path_exists (empty_disk\<lparr>dirs := {ascii ''tarat_tracks/A'', OUTPUT_DIR}\<rparr>)
      (ascii ''tarat_tracks/A/A - x.mp3'')"
  "0 < sem_value (empty_disk\<lparr>dirs := {ascii ''tarat_tracks/A'', OUTPUT_DIR}\<rparr>)"
  "\<not> cover_locked (empty_disk\<lparr>dirs := {ascii ''tarat_tracks/A'', OUTPUT_DIR}\<rparr>)"
  "http_get (world st cl te)
      (length (requests (empty_disk\<lparr>dirs := {ascii ''tarat_tracks/A'', OUTPUT_DIR}\<rparr>)))
      (TrackGet (ascii ''u/x.mp3''))
    = Responded \<lparr>status = st, content_length = cl, chunks = [[73, 68, 51], [0]],
        body_error = None\<rparr>"
  by (simp_all add: os_path_exists_def empty_disk_def OUTPUT_DIR_def ascii_def
      MAX_CONCURRENT_DOWNLOADS_def world_def)

lemmas eval_int = py_int_def int_space_def is_decimal_def decimal_value_def decimal_starts_def
  ascii_def Let_def

lemma int_examples:
  "py_int (ascii ''0'') = Some 0"
  "py_int (ascii ''1234'') = Some 1234"
  "py_int (ascii ''-5'') = Some (- 5)"
  "py_int (ascii '' 1_000 '') = Some 1000"
  "py_int (ascii ''12a'') = None"
  "py_int (ascii ''1__0'') = None"
  "py_int (ascii '''') = None"
  "py_int [28, 49, 50] = None"
  "py_int [160, 49, 50, 12288] = Some 12"
  "py_int [1633, 1634, 1635] = Some 123"
  "py_int [45, 1635] = Some (- 3)"
  by (simp_all add: eval_int)

lemma cover_404:
  assumes "requests s = rs" and "\<not> cover_locked s" and "downloaded_covers s = {}"
    and "dirs s = {OUTPUT_DIR, ascii ''tarat_tracks/A''}"
    and "files s (ascii ''tarat_tracks/A/A_cover.jpg'') = None"
  shows "cover_block (world 404 None None) (ascii ''A'') (Some (ascii ''u/c.jpg'')) s
    = Some (s\<lparr>requests := rs @ [CoverGet (ascii ''u/c.jpg'')]\<rparr>)"
proof -
  have n: "ascii ''tarat_tracks/A/A_cover.jpg'' \<noteq> OUTPUT_DIR"
      "ascii ''tarat_tracks/A/A_cover.jpg'' \<noteq> ascii ''tarat_tracks/A''"
      "ascii ''u/c.jpg'' \<noteq> []"
    by (simp_all add: OUTPUT_DIR_def ascii_def)
  show ?thesis
    using assms n
    by (simp add: cover_block_def download_cover_def Let_def san_A folder_A path_A
        os_path_exists_def world_def)
qed

section \<open>A body fetch that is not answered with 200\<close>



section \<open>Tag writing cannot fail a download\<close>

text \<open>
  C7. The body download succeeds: the request is answered with 200, the file opens,
  every write succeeds and the body ends without error. Then the worker returns
  \<open>True\<close> whatever \<open>write_id3_tags\<close> meets. When tag writing fails, the failure is the
  last entry of the error log; when it succeeds, the tags are artist, title,
  album = artist and comment = source URL.
\<close>

theorem tag_failure_keeps_success:
  assumes "build_expected_filepath e singer_name title s = (Inr filepath, s1)"
    and "\<not> os_path_exists s1 filepath"
    and "0 < sem_value s1"
    and "\<not> cover_locked s1"
    and "http_get e (length (requests s1)) (TrackGet mp3_url) = Responded resp"
    and "status resp = 200"
    and "open_error e filepath = None"
    and "\<forall>n. write_error e filepath n = None"
    and "body_error resp = None"
  shows "fst (download_track e (singer_name, title, mp3_url, cover_url) s) = Some (Returned True)
    \<and> (case tag_error e filepath of
          Some m \<Rightarrow>
            last (error_log (snd (download_track e (singer_name, title, mp3_url, cover_url) s)))
              = TagError (os_path_basename filepath) m
        | None \<Rightarrow>
            tags (snd (download_track e (singer_name, title, mp3_url, cover_url) s)) filepath
              = Some \<lparr>tag_artist = singer_name, tag_title = title,
                      tag_album = singer_name, tag_comment = mp3_url\<rparr>)"
proof -
  define s2 where "s2 = s1\<lparr>sem_value := sem_value s1 - 1,
      pbar_desc := take 50 (singer_name @ ascii '' - '' @ title), pbar_n := 0\<rparr>"
  define s3 where "s3 = set_pbar_total (safe_get_content_length resp)
      (s2\<lparr>requests := requests s1 @ [TrackGet mp3_url]\<rparr>)"
  define s4 where "s4 = s3\<lparr>files := (files s3)(filepath \<mapsto> []),
      handles := handles s3 @ [filepath], opened := opened s3 @ [filepath]\<rparr>"
  have r2: "requests s2 = requests s1" by (simp add: s2_def)
  have o: "open_wb e filepath s3 = (None, s4)"
    using assms(7) by (simp add: open_wb_def s4_def)
  obtain s5 where w: "write_chunks e filepath (chunks resp) s4 = (None, s5)"
      and l5: "cover_locked s5 = cover_locked s4"
    using write_chunks_ok[OF assms(8), of "chunks resp" s4] by blast
  have "\<not> cover_locked (file_close filepath s5)"
    using l5 assms(4) by (simp add: file_close_def s4_def s3_def s2_def set_pbar_total_def)
  then obtain s6 where c: "cover_block e singer_name cover_url (file_close filepath s5) = Some s6"
    using cover_block_free by blast
  have t: "track_try_block e (singer_name, title, mp3_url, cover_url) filepath s2 =
      (Some (Returned True), write_id3_tags e filepath singer_name title mp3_url s6)"
    using assms(5,6,9) o w c
    by (simp add: track_try_block_def Let_def s3_def[symmetric] r2)
  have "download_track e (singer_name, title, mp3_url, cover_url) s =
      (Some (Returned True),
       (write_id3_tags e filepath singer_name title mp3_url s6)
         \<lparr>sem_value := sem_value (write_id3_tags e filepath singer_name title mp3_url s6) + 1\<rparr>)"
    using assms(1,2,3) t[unfolded s2_def] by (simp add: download_track_def Let_def del: take_append)
  then show ?thesis
    by (simp add: write_id3_tags_def log_error_def split: option.splits)
qed

theorem tag_failure_keeps_success_witness:
  "fst (download_track (world 200 None (Some (ascii ''boom''))) track_x empty_disk)
     = Some (Returned True)
   \<and> last (error_log (snd (download_track (world 200 None (Some (ascii ''boom''))) track_x
        empty_disk)))
     = TagError (ascii ''A - x.mp3'') (ascii ''boom'')"
proof -
  have o: "open_error (world 200 None (Some (ascii ''boom''))) (ascii ''tarat_tracks/A/A - x.mp3'') = None"
    and w: "\<forall>n. write_error (world 200 None (Some (ascii ''boom'')))
        (ascii ''tarat_tracks/A/A - x.mp3'') n = None"
    and t: "tag_error (world 200 None (Some (ascii ''boom''))) (ascii ''tarat_tracks/A/A - x.mp3'')
        = Some (ascii ''boom'')"
    by (simp_all add: world_def)
  have b: "os_path_basename (ascii ''tarat_tracks/A/A - x.mp3'') = ascii ''A - x.mp3''"
    by (simp add: os_path_basename_def ascii_def)
  from tag_failure_keeps_success[OF build_empty_x empty_x_facts(1,2,3,4) _ o w,
      where cover_url = "Some (ascii ''u/c.jpg'')"]
  show ?thesis by (simp add: track_x_def t b)
qed

section \<open>A track that is already on disk\<close>

lemma download_cover_requests:
  "requests (download_cover e n cu s) = requests s \<or>
   (\<exists>u. cu = Some u \<and> requests (download_cover e n cu s) = requests s @ [CoverGet u])"
  by (auto simp: download_cover_def Let_def os_makedirs_def open_wb_def file_write_def
      file_close_def log_error_def
      split: option.splits http_result.splits if_splits)

text \<open>
  C3. The destination file exists (line 107 returns its path and line 110 finds it) and
  the cover lock is free. Then the worker returns \<open>True\<close> and issues no request for
  the track body: the requests are those issued before, followed by at most one cover
  request.
\<close>

theorem existing_file_skips_body:
  assumes "build_expected_filepath e singer_name title s = (Inr filepath, s1)"
    and "os_path_exists s1 filepath"
    and "\<not> cover_locked s"
  shows "fst (download_track e (singer_name, title, mp3_url, cover_url) s) = Some (Returned True)
    \<and> (requests (snd (download_track e (singer_name, title, mp3_url, cover_url) s)) = requests s
       \<or> (\<exists>u. cover_url = Some u \<and>
            requests (snd (download_track e (singer_name, title, mp3_url, cover_url) s))
              = requests s @ [CoverGet u]))"
proof -
  obtain D where s1: "s1 = s\<lparr>dirs := D\<rparr>"
    using build_frame[OF assms(1)] by blast
  have l: "\<not> cover_locked s1" using assms(3) s1 by simp
  define s2 where "s2 = s1\<lparr>cover_locked := True\<rparr>"
  have r: "requests s2 = requests s" by (simp add: s2_def s1)
  have "requests (download_cover e singer_name cover_url s2) = requests s \<or>
   (\<exists>u. cover_url = Some u \<and> requests (download_cover e singer_name cover_url s2) = requests s @ [CoverGet u])"
    using download_cover_requests[of e singer_name cover_url s2] r by simp
  then show ?thesis
    using assms(1,2) l r
    by (auto simp: download_track_def cover_block_def Let_def s2_def[symmetric])
qed

theorem existing_file_skips_body_witness:
  "fst (download_track (world 404 None None) track_x full_disk) = Some (Returned True)
   \<and> requests (snd (download_track (world 404 None None) track_x full_disk))
       = [CoverGet (ascii ''u/c.jpg'')]"
proof -
  have l: "\<not> cover_locked full_disk" by (simp add: full_disk_def empty_disk_def)
  have r: "requests full_disk = []" by (simp add: full_disk_def empty_disk_def)
  have c1: "cover_block (world 404 None None) (ascii ''A'') (Some (ascii ''u/c.jpg'')) full_disk
      = Some (full_disk\<lparr>requests := [] @ [CoverGet (ascii ''u/c.jpg'')]\<rparr>)"
    by (rule cover_404) (simp_all add: full_disk_def empty_disk_def ascii_def)
  have d1: "requests (snd (download_track (world 404 None None) track_x full_disk))
      = [CoverGet (ascii ''u/c.jpg'')]"
    using c1 by (simp add: download_track_def track_x_def build_full exists_full)
  from existing_file_skips_body[OF build_full(1)[of 404 None None] exists_full(1) l,
      where mp3_url = "ascii ''u/x.mp3''" and cover_url = "Some (ascii ''u/c.jpg'')"] d1
  show ?thesis by (simp add: track_x_def)
qed

section \<open>The progress total\<close>

lemma write_chunks_total: "pbar_total (snd (write_chunks e p cs s)) = pbar_total s"
proof (induction cs arbitrary: s)
  case Nil
  then show ?case by simp
next
  case (Cons c cs)
  show ?case
  proof (cases "write_error e p (file_size s p)")
    case None
    then show ?thesis using Cons.IH by (simp add: file_write_def)
  next
    case (Some m)
    then show ?thesis by (simp add: file_write_def)
  qed
qed

lemma download_cover_total: "pbar_total (download_cover e n cu s) = pbar_total s"
  by (auto simp: download_cover_def Let_def os_makedirs_def open_wb_def file_write_def
      file_close_def log_error_def
      split: option.splits http_result.splits if_splits)

lemma cover_block_total: "cover_block e n cu s = Some s' \<Longrightarrow> pbar_total s' = pbar_total s"
  by (auto simp: cover_block_def Let_def download_cover_total split: if_splits)

lemma try_block_total:
  assumes "http_get e (length (requests s)) (TrackGet mp3_url) = Responded resp"
    and "status resp = 200"
  shows "pbar_total (snd (track_try_block e (singer_name, title, mp3_url, cover_url) filepath s))
    = (if safe_get_content_length resp = 0 then 1 else safe_get_content_length resp)"
proof -
  define s2 where "s2 = set_pbar_total (safe_get_content_length resp)
      (s\<lparr>requests := requests s @ [TrackGet mp3_url]\<rparr>)"
  have t2: "pbar_total s2 = (if safe_get_content_length resp = 0 then 1 else safe_get_content_length resp)"
    by (simp add: s2_def set_pbar_total_def)
  show ?thesis
  proof (cases "open_error e filepath")
    case (Some m)
    then show ?thesis using assms t2
      by (simp add: track_try_block_def Let_def s2_def[symmetric] open_wb_def log_error_def)
  next
    case None
    define s3 where "s3 = s2\<lparr>files := (files s2)(filepath \<mapsto> []),
      handles := handles s2 @ [filepath], opened := opened s2 @ [filepath]\<rparr>"
    have o: "open_wb e filepath s2 = (None, s3)"
      using None by (simp add: open_wb_def s3_def)
    obtain r s4 where w: "write_chunks e filepath (chunks resp) s3 = (r, s4)"
      by (cases "write_chunks e filepath (chunks resp) s3")
    have t4: "pbar_total s4 = pbar_total s2"
      using write_chunks_total[of e filepath "chunks resp" s3] w by (simp add: s3_def)
    show ?thesis
      using assms o w t4 t2 cover_block_total[of e singer_name cover_url "file_close filepath s4"]
      by (auto simp: track_try_block_def Let_def s2_def[symmetric] log_error_def file_close_def
          write_id3_tags_def split: option.splits)
  qed
qed

lemma download_track_total:
  assumes "build_expected_filepath e singer_name title s = (Inr filepath, s1)"
    and "\<not> os_path_exists s1 filepath"
    and "0 < sem_value s1"
    and "http_get e (length (requests s1)) (TrackGet mp3_url) = Responded resp"
    and "status resp = 200"
  shows "pbar_total (snd (download_track e (singer_name, title, mp3_url, cover_url) s))
    = (if safe_get_content_length resp = 0 then 1 else safe_get_content_length resp)"
proof -
  define s2 where "s2 = s1\<lparr>sem_value := sem_value s1 - 1,
      pbar_desc := take 50 (singer_name @ ascii '' - '' @ title), pbar_n := 0\<rparr>"
  have "http_get e (length (requests s2)) (TrackGet mp3_url) = Responded resp"
    using assms(4) by (simp add: s2_def)
  from try_block_total[OF this assms(5), of singer_name title cover_url filepath]
  have t: "pbar_total (snd (track_try_block e (singer_name, title, mp3_url, cover_url) filepath s2))
    = (if safe_get_content_length resp = 0 then 1 else safe_get_content_length resp)" .
  have "pbar_total (snd (download_track e (singer_name, title, mp3_url, cover_url) s))
     = pbar_total (snd (track_try_block e (singer_name, title, mp3_url, cover_url) filepath s2))"
    using assms(1,2,3)
    by (simp add: download_track_def Let_def s2_def del: take_append split: prod.splits option.splits)
  then show ?thesis using t by simp
qed

text \<open>
  C2, as it is stated, fails: a Content-Length of \<open>0\<close> is present and parses as
  the non-negative integer 0, yet the total set at line 128 is 1; and with the header
  absent \<open>safe_get_content_length\<close> returns 0 and the total is the number 1, not an
  unknown total.
\<close>

theorem content_length_zero_counterexample:
  "py_int (ascii ''0'') = Some 0
   \<and> pbar_total (snd (download_track (world 200 (Some (ascii ''0'')) None) track_x empty_disk)) = 1
   \<and> safe_get_content_length
        \<lparr>status = 200, content_length = None, chunks = [[73, 68, 51], [0]], body_error = None\<rparr> = 0
   \<and> pbar_total (snd (download_track (world 200 None None) track_x empty_disk)) = 1"
proof -
  have a: "pbar_total (snd (download_track (world 200 (Some (ascii ''0'')) None) track_x empty_disk)) = 1"
    using download_track_total[OF build_empty_x empty_x_facts(1,2,4),
        where cover_url = "Some (ascii ''u/c.jpg'')" and cl1 = "Some (ascii ''0'')"]
    by (simp add: track_x_def safe_get_content_length_def int_examples)
  have b: "pbar_total (snd (download_track (world 200 None None) track_x empty_disk)) = 1"
    using download_track_total[OF build_empty_x empty_x_facts(1,2,4),
        where cover_url = "Some (ascii ''u/c.jpg'')" and cl1 = None]
    by (simp add: track_x_def safe_get_content_length_def)
  show ?thesis using a b by (simp add: int_examples safe_get_content_length_def)
qed

text \<open>
  C2, amended. When the body request is answered with 200 and the Content-Length
  header is present and parses as a positive integer, that value is the progress total
  of the track. When the header is absent, does not parse, or parses as 0,
  \<open>safe_get_content_length\<close> returns 0 and the progress total is 1.
\<close>

theorem content_length_total:
  assumes "build_expected_filepath e singer_name title s = (Inr filepath, s1)"
    and "\<not> os_path_exists s1 filepath"
    and "0 < sem_value s1"
    and "http_get e (length (requests s1)) (TrackGet mp3_url) = Responded resp"
    and "status resp = 200"
  shows "(\<forall>h n. content_length resp = Some h \<and> py_int h = Some n \<and> 0 < n \<longrightarrow>
            pbar_total (snd (download_track e (singer_name, title, mp3_url, cover_url) s)) = n)
    \<and> (content_length resp = None \<longrightarrow>
          safe_get_content_length resp = 0 \<and>
          pbar_total (snd (download_track e (singer_name, title, mp3_url, cover_url) s)) = 1)
    \<and> (\<forall>h. content_length resp = Some h \<and> (py_int h = None \<or> py_int h = Some 0) \<longrightarrow>
          safe_get_content_length resp = 0 \<and>
          pbar_total (snd (download_track e (singer_name, title, mp3_url, cover_url) s)) = 1)"
  using download_track_total[OF assms, of cover_url]
  by (auto simp: safe_get_content_length_def split: option.splits)

theorem content_length_total_witness:
  "pbar_total (snd (download_track (world 200 (Some (ascii ''1234'')) None) track_x empty_disk))
     = 1234"
proof -
  have p: "content_length \<lparr>status = 200, content_length = Some (ascii ''1234''),
        chunks = [[73, 68, 51], [0]], body_error = None\<rparr> = Some (ascii ''1234'')
      \<and> py_int (ascii ''1234'') = Some 1234 \<and> (0::int) < 1234"
    by (simp add: int_examples)
  from content_length_total[OF build_empty_x empty_x_facts(1,2,4),
        where cover_url = "Some (ascii ''u/c.jpg'')" and cl1 = "Some (ascii ''1234'')"] p
  show ?thesis by (simp add: track_x_def)
qed

section \<open>The cover registry\<close>

lemma write_chunks_registry:
  "downloaded_covers (snd (write_chunks e p cs s)) = downloaded_covers s"
proof (induction cs arbitrary: s)
  case Nil
  then show ?case by simp
next
  case (Cons c cs)
  show ?case
  proof (cases "write_error e p (file_size s p)")
    case None
    then show ?thesis using Cons.IH by (simp add: file_write_def)
  next
    case (Some m)
    then show ?thesis by (simp add: file_write_def)
  qed
qed

lemma download_cover_registry:
  "downloaded_covers (download_cover e n cu s) = downloaded_covers s"
  by (auto simp: download_cover_def Let_def os_makedirs_def open_wb_def file_write_def
      file_close_def log_error_def
      split: option.splits http_result.splits if_splits)

lemma cover_block_registry:
  "cover_block e n cu s = Some s' \<Longrightarrow> downloaded_covers s' = downloaded_covers s"
  by (auto simp: cover_block_def Let_def download_cover_registry split: if_splits)

lemma try_block_registry:
  "downloaded_covers (snd (track_try_block e (singer_name, title, mp3_url, cover_url) filepath s))
     = downloaded_covers s"
proof (cases "http_get e (length (requests s)) (TrackGet mp3_url)")
  case (Failed m)
  then show ?thesis by (simp add: track_try_block_def Let_def log_error_def)
next
  case (Responded resp)
  show ?thesis
  proof (cases "status resp = 200")
    case False
    then show ?thesis using Responded by (simp add: track_try_block_def Let_def log_error_def)
  next
    case True
    define s2 where "s2 = set_pbar_total (safe_get_content_length resp)
        (s\<lparr>requests := requests s @ [TrackGet mp3_url]\<rparr>)"
    have t2: "downloaded_covers s2 = downloaded_covers s"
      by (simp add: s2_def set_pbar_total_def)
    show ?thesis
    proof (cases "open_error e filepath")
      case (Some m)
      then show ?thesis using Responded True t2
        by (simp add: track_try_block_def Let_def s2_def[symmetric] open_wb_def log_error_def)
    next
      case None
      define s3 where "s3 = s2\<lparr>files := (files s2)(filepath \<mapsto> []),
        handles := handles s2 @ [filepath], opened := opened s2 @ [filepath]\<rparr>"
      have o: "open_wb e filepath s2 = (None, s3)"
        using None by (simp add: open_wb_def s3_def)
      obtain r s4 where w: "write_chunks e filepath (chunks resp) s3 = (r, s4)"
        by (cases "write_chunks e filepath (chunks resp) s3")
      have t4: "downloaded_covers s4 = downloaded_covers s2"
        using write_chunks_registry[of e filepath "chunks resp" s3] w by (simp add: s3_def)
      show ?thesis
        using Responded True o w t4 t2
          cover_block_registry[of e singer_name cover_url "file_close filepath s4"]
        by (auto simp: track_try_block_def Let_def s2_def[symmetric] log_error_def file_close_def
            write_id3_tags_def split: option.splits)
    qed
  qed
qed

lemma registry_never_marked:
  "downloaded_covers (snd (download_track e (singer_name, title, mp3_url, cover_url) s))
     = downloaded_covers s"
proof -
  obtain r s1 where b: "build_expected_filepath e singer_name title s = (r, s1)"
    by (cases "build_expected_filepath e singer_name title s")
  then obtain D where s1: "s1 = s\<lparr>dirs := D\<rparr>"
    using build_frame by blast
  show ?thesis
  proof (cases r)
    case (Inl x)
    then show ?thesis using b s1 by (simp add: download_track_def)
  next
    case (Inr filepath)
    define s2 where "s2 = s1\<lparr>sem_value := sem_value s1 - 1,
        pbar_desc := take 50 (singer_name @ ascii '' - '' @ title), pbar_n := 0\<rparr>"
    have t: "downloaded_covers
        (snd (track_try_block e (singer_name, title, mp3_url, cover_url) filepath s2))
        = downloaded_covers s"
      using try_block_registry[of e singer_name title mp3_url cover_url filepath s2]
      by (simp add: s2_def s1)
    show ?thesis
      using b Inr t[unfolded s2_def] cover_block_registry[of e singer_name cover_url s1]
      by (auto simp: download_track_def Let_def s1 simp del: take_append
          split: prod.splits option.splits)
  qed
qed

text \<open>
  C1. The code does not do what the specification says. Two tracks of artist \<open>A\<close>
  share one cover URL, which answers 404; both tracks are on disk. Processing one and
  then the other issues the cover request twice, and the registry is empty afterwards,
  as it is after every call (\<open>registry_never_marked\<close>): nothing adds to
  \<open>downloaded_covers\<close>.
\<close>

theorem cover_refetched_after_failure:
  "requests (snd (download_track (world 404 None None) track_y
      (snd (download_track (world 404 None None) track_x full_disk))))
     = [CoverGet (ascii ''u/c.jpg''), CoverGet (ascii ''u/c.jpg'')]
   \<and> downloaded_covers (snd (download_track (world 404 None None) track_y
      (snd (download_track (world 404 None None) track_x full_disk)))) = {}"
proof -
  have c1: "cover_block (world 404 None None) (ascii ''A'') (Some (ascii ''u/c.jpg'')) full_disk
      = Some (full_disk\<lparr>requests := [] @ [CoverGet (ascii ''u/c.jpg'')]\<rparr>)"
    by (rule cover_404) (simp_all add: full_disk_def empty_disk_def ascii_def)
  define s1 where "s1 = full_disk\<lparr>requests := [CoverGet (ascii ''u/c.jpg'')]\<rparr>"
  have d1: "download_track (world 404 None None) track_x full_disk = (Some (Returned True), s1)"
    using c1 by (simp add: download_track_def track_x_def build_full exists_full s1_def)
  have b2: "build_expected_filepath (world 404 None None) (ascii ''A'') (ascii ''y'') s1
      = (Inr (ascii ''tarat_tracks/A/A - y.mp3''), s1)"
    by (simp add: build_expected_filepath_def Let_def san_A san_y folder_A path_A
        os_makedirs_def s1_def full_disk_def empty_disk_def)
  have e2: "os_path_exists s1 (ascii ''tarat_tracks/A/A - y.mp3'')"
    using exists_full(2) by (simp add: os_path_exists_def s1_def)
  have c2: "cover_block (world 404 None None) (ascii ''A'') (Some (ascii ''u/c.jpg'')) s1
      = Some (s1\<lparr>requests := [CoverGet (ascii ''u/c.jpg'')] @ [CoverGet (ascii ''u/c.jpg'')]\<rparr>)"
    by (rule cover_404) (simp_all add: s1_def full_disk_def empty_disk_def ascii_def)
  have d2: "download_track (world 404 None None) track_y s1
      = (Some (Returned True),
         s1\<lparr>requests := [CoverGet (ascii ''u/c.jpg''), CoverGet (ascii ''u/c.jpg'')]\<rparr>)"
    using c2 by (simp add: download_track_def track_y_def b2 e2)
  show ?thesis
    by (simp add: d1 d2) (simp add: s1_def full_disk_def empty_disk_def)
qed

section \<open>Collecting the results\<close>

text \<open>
  What escapes a worker that is not cancelled is an \<open>Exception\<close>: the one of
  \<open>os.makedirs\<close> at line 107. The \<open>try\<close> block lets nothing escape.
\<close>

lemma try_block_never_raises:
  "fst (track_try_block e (singer_name, title, mp3_url, cover_url) filepath s) \<noteq> Some (Raised x)"
  by (auto simp: track_try_block_def Let_def
      split: http_result.splits option.splits prod.splits if_splits)

lemma worker_raises_only_exception:
  assumes "fst (download_track e (singer_name, title, mp3_url, cover_url) s) = Some (Raised x)"
  shows "\<exists>m. x = Exception m"
proof -
  obtain r s1 where b: "build_expected_filepath e singer_name title s = (r, s1)"
    by (cases "build_expected_filepath e singer_name title s")
  show ?thesis
  proof (cases r)
    case (Inl y)
    then have "\<exists>m. y = Exception m"
      using b by (auto simp: build_expected_filepath_def Let_def split: prod.splits option.splits)
    then show ?thesis using assms b Inl by (simp add: download_track_def)
  next
    case (Inr filepath)
    define s2 where "s2 = s1\<lparr>sem_value := sem_value s1 - 1,
        pbar_desc := take 50 (singer_name @ ascii '' - '' @ title), pbar_n := 0\<rparr>"
    have "fst (track_try_block e (singer_name, title, mp3_url, cover_url) filepath s2)
        \<noteq> Some (Raised x)"
      by (rule try_block_never_raises)
    then show ?thesis
      using assms b Inr
      by (auto simp: download_track_def Let_def s2_def simp del: take_append
          split: prod.splits option.splits if_splits)
  qed
qed

text \<open>
  C5. When no outcome is an exception outside \<open>Exception\<close>, the loop runs to the end
  of the batch: the success counter grows by the number of workers that returned
  \<open>True\<close>, the progress bar advances once per track, and each escaped exception is
  logged once and counted as no success. The final tally is the success counter out of
  the number of tracks.
\<close>

theorem batch_survives_exceptions:
  assumes "\<forall>x\<in>set outcomes. \<forall>m. x \<noteq> Raised (BaseException m)"
  shows "fst (collect_results outcomes t) = None
    \<and> success_count (snd (collect_results outcomes t))
        = success_count t + length (filter (\<lambda>x. x = Returned True) outcomes)
    \<and> pbar_main (snd (collect_results outcomes t)) = pbar_main t + length outcomes
    \<and> task_log (snd (collect_results outcomes t)) = task_log t @ task_entries outcomes"
  using assms
proof (induction outcomes t rule: collect_results.induct)
  case (1 t)
  then show ?case by simp
next
  case (2 r rest t)
  then show ?case by simp
next
  case (3 m rest t)
  then show ?case by simp
next
  case (4 m rest t)
  then show ?case by simp
qed

theorem batch_survives_exceptions_witness:
  "collect_results
     [Returned True, Raised (Exception (ascii ''boom'')), Returned False, Returned True]
     \<lparr>success_count = 0, pbar_main = 0, task_log = []\<rparr>
   = (None, \<lparr>success_count = 2, pbar_main = 4, task_log = [TaskException (ascii ''boom'')]\<rparr>)"
proof -
  have "\<forall>x\<in>set [Returned True, Raised (Exception (ascii ''boom'')), Returned False, Returned True].
      \<forall>m. x \<noteq> Raised (BaseException m)"
    by simp
  from batch_survives_exceptions[OF this, of "\<lparr>success_count = 0, pbar_main = 0, task_log = []\<rparr>"]
  show ?thesis
    by (cases "collect_results
     [Returned True, Raised (Exception (ascii ''boom'')), Returned False, Returned True]
     \<lparr>success_count = 0, pbar_main = 0, task_log = []\<rparr>") simp
qed

section \<open>The semaphore bounds the downloads in flight\<close>

lemma worker_step_sem:
  "worker_step p a = Some (p', so, lo) \<Longrightarrow>
   (so = SemAcquire \<longrightarrow> \<not> holding p \<and> holding p') \<and>
   (so = SemRelease \<longrightarrow> holding p \<and> \<not> holding p') \<and>
   (so = SemKeep \<longrightarrow> holding p' = holding p)"
  by (cases p; cases a) (auto simp: worker_step_def holding_def cancelled_def)

lemma filter_update_length:
  "i < length xs \<Longrightarrow>
   length (filter P (xs[i := y])) + (if P (xs ! i) then 1 else 0)
     = length (filter P xs) + (if P y then 1 else 0)"
proof (induction xs arbitrary: i)
  case Nil
  then show ?case by simp
next
  case (Cons x xs)
  then show ?case by (cases i) auto
qed

lemma pool_inv_init: "pool_inv (init n)"
  by (simp add: pool_inv_def init_def holding_def)

lemma pool_inv_step:
  assumes "pool_inv S" and "step S i a = Some S'"
  shows "pool_inv S'"
proof -
  from assms(2) have i: "i < length (workers S)"
    by (simp add: step_def split: if_splits)
  define w where "w = workers S ! i"
  from assms(2) i obtain p' so lo where ws: "worker_step (pc w) a = Some (p', so, lo)"
    by (auto simp: step_def w_def split: option.splits)
  define w' where "w' = \<lparr>pc = p', permit = (case so of SemKeep \<Rightarrow> permit w
                                    | SemAcquire \<Rightarrow> True
                                    | SemRelease \<Rightarrow> False)\<rparr>"
  define S1 where "S1 = \<lparr>sem = (case so of SemKeep \<Rightarrow> sem S | SemAcquire \<Rightarrow> sem S - 1
                          | SemRelease \<Rightarrow> sem S + 1),
                  lock = (case lo of LockKeep \<Rightarrow> lock S | LockAcquire \<Rightarrow> True
                          | LockRelease \<Rightarrow> False),
                  workers = (workers S)[i := w']\<rparr>"
  have st: "step S i a = (if so = SemAcquire \<and> sem S = 0 then None
      else if lo = LockAcquire \<and> lock S then None else Some S1)"
    using i ws by (cases so) (simp_all add: step_def w_def S1_def w'_def)
  have guard: "\<not> (so = SemAcquire \<and> sem S = 0)"
    using assms(2) st by (auto split: if_splits)
  have "S' = S1"
    using assms(2) st by (simp split: if_splits)
  then have S': "sem S' = (case so of SemKeep \<Rightarrow> sem S | SemAcquire \<Rightarrow> sem S - 1
                          | SemRelease \<Rightarrow> sem S + 1)"
      "workers S' = (workers S)[i := w']"
    by (simp_all add: S1_def)
  have wmem: "w \<in> set (workers S)" using i by (simp add: w_def)
  with assms(1) have pw: "permit w = holding (pc w)" by (simp add: pool_inv_def)
  have pw': "permit w' = holding (pc w')"
    using worker_step_sem[OF ws] pw by (cases so) (simp_all add: w'_def)
  have cnt: "length (filter permit ((workers S)[i := w'])) + (if permit w then 1 else 0)
     = length (filter permit (workers S)) + (if permit w' then 1 else 0)"
    using filter_update_length[OF i, of permit w'] by (simp add: w_def)
  have sum: "sem S + length (filter permit (workers S)) = MAX_CONCURRENT_DOWNLOADS"
    using assms(1) by (simp add: pool_inv_def)
  have "sem S' + length (filter permit (workers S')) = MAX_CONCURRENT_DOWNLOADS"
    using worker_step_sem[OF ws] pw pw' cnt sum guard
    by (cases so) (auto simp: S' w'_def split: if_splits)
  moreover have "\<forall>v\<in>set (workers S'). permit v = holding (pc v)"
  proof
    fix v assume "v \<in> set (workers S')"
    then have "v = w' \<or> v \<in> set (workers S)"
      using set_update_subset_insert[of "workers S" i w'] by (auto simp: S')
    then show "permit v = holding (pc v)"
      using pw' assms(1) by (auto simp: pool_inv_def)
  qed
  ultimately show ?thesis by (simp add: pool_inv_def)
qed

lemma pool_inv_run: "pool_inv S \<Longrightarrow> run S evs = Some S' \<Longrightarrow> pool_inv S'"
proof (induction evs arbitrary: S)
  case Nil
  then show ?case by simp
next
  case (Cons ev evs)
  obtain i a where ev: "ev = (i, a)" by (cases ev)
  from Cons.prems(2) ev obtain S1 where s: "step S i a = Some S1" and r: "run S1 evs = Some S'"
    by (auto split: option.splits)
  from pool_inv_step[OF Cons.prems(1) s] r show ?case by (rule Cons.IH)
qed

lemma filter_length_mono:
  "(\<And>x. x \<in> set xs \<Longrightarrow> P x \<Longrightarrow> Q x) \<Longrightarrow> length (filter P xs) \<le> length (filter Q xs)"
  by (induction xs) auto

text \<open>
  C4. In every state that a run of \<open>n\<close> workers reaches, at most
  \<open>MAX_CONCURRENT_DOWNLOADS\<close> = 6 track-body downloads are in flight, every worker with
  a download in flight holds a permit, the permits held and the permits left add up to
  6, and while all 6 are held no worker is granted one.
\<close>

theorem permits_bound_downloads:
  assumes "run (init n) evs = Some S"
  shows "length (filter (\<lambda>w. in_flight (pc w)) (workers S)) \<le> MAX_CONCURRENT_DOWNLOADS
    \<and> (\<forall>w\<in>set (workers S). in_flight (pc w) \<longrightarrow> permit w)
    \<and> sem S + length (filter permit (workers S)) = MAX_CONCURRENT_DOWNLOADS
    \<and> (length (filter permit (workers S)) = MAX_CONCURRENT_DOWNLOADS
         \<longrightarrow> (\<forall>i. step S i PermitGranted = None))"
proof -
  have inv: "pool_inv S"
    using pool_inv_init assms by (rule pool_inv_run)
  then have sum: "sem S + length (filter permit (workers S)) = MAX_CONCURRENT_DOWNLOADS"
    and pm: "\<And>w. w \<in> set (workers S) \<Longrightarrow> permit w = holding (pc w)"
    by (simp_all add: pool_inv_def)
  have fl: "\<And>w. w \<in> set (workers S) \<Longrightarrow> in_flight (pc w) \<Longrightarrow> permit w"
    using pm by (auto simp: in_flight_def holding_def)
  have "length (filter (\<lambda>w. in_flight (pc w)) (workers S)) \<le> length (filter permit (workers S))"
    by (rule filter_length_mono) (rule fl)
  then have b: "length (filter (\<lambda>w. in_flight (pc w)) (workers S)) \<le> MAX_CONCURRENT_DOWNLOADS"
    using sum by simp
  have g: "step S i PermitGranted = None" if "length (filter permit (workers S)) = MAX_CONCURRENT_DOWNLOADS" for i
  proof -
    from that sum have "sem S = 0" by simp
    then show ?thesis
      by (cases "pc (workers S ! i)") (simp_all add: step_def worker_step_def)
  qed
  show ?thesis using b fl sum g by blast
qed

theorem permits_bound_downloads_witness:
  "run (init 7)
     [(0, FileMissing), (1, FileMissing), (2, FileMissing), (3, FileMissing), (4, FileMissing),
      (5, FileMissing), (6, FileMissing), (0, PermitGranted), (1, PermitGranted),
      (2, PermitGranted), (3, PermitGranted), (4, PermitGranted), (5, PermitGranted)]
    = Some \<lparr>sem = 0, lock = False,
         workers = replicate 6 \<lparr>pc = Requesting, permit = True\<rparr>
                   @ [\<lparr>pc = PermitWait, permit = False\<rparr>]\<rparr>
   \<and> length (filter (\<lambda>w. in_flight (pc w))
        (replicate 6 \<lparr>pc = Requesting, permit = True\<rparr> @ [\<lparr>pc = PermitWait, permit = False\<rparr>]))
       \<le> MAX_CONCURRENT_DOWNLOADS
   \<and> step \<lparr>sem = 0, lock = False,
         workers = replicate 6 \<lparr>pc = Requesting, permit = True\<rparr>
                   @ [\<lparr>pc = PermitWait, permit = False\<rparr>]\<rparr> 6 PermitGranted = None"
proof -
  have r: "run (init 7)
     [(0, FileMissing), (1, FileMissing), (2, FileMissing), (3, FileMissing), (4, FileMissing),
      (5, FileMissing), (6, FileMissing), (0, PermitGranted), (1, PermitGranted),
      (2, PermitGranted), (3, PermitGranted), (4, PermitGranted), (5, PermitGranted)]
    = Some \<lparr>sem = 0, lock = False,
         workers = replicate 6 \<lparr>pc = Requesting, permit = True\<rparr>
                   @ [\<lparr>pc = PermitWait, permit = False\<rparr>]\<rparr>"
    by (simp add: init_def step_def worker_step_def MAX_CONCURRENT_DOWNLOADS_def
        eval_nat_numeral)
  from permits_bound_downloads[OF r] r show ?thesis
    by (simp add: MAX_CONCURRENT_DOWNLOADS_def)
qed

section \<open>The interrupt handler waits for itself\<close>

lemma finished_pool_permits_back:
  assumes "pool_inv P" and "\<forall>w\<in>set (workers P). \<not> unfinished (pc w)"
  shows "sem P = MAX_CONCURRENT_DOWNLOADS"
proof -
  have "\<forall>w\<in>set (workers P). \<not> permit w"
    using assms by (auto simp: pool_inv_def holding_def unfinished_def split: pc.splits)
  then have "filter permit (workers P) = []" by (simp add: filter_empty_conv)
  then show ?thesis using assms(1) by (simp add: pool_inv_def)
qed

lemma fold_cancel_frame:
  "main_at (fold task_cancel ts S) = main_at S \<and>
   worker_pool (fold task_cancel ts S) = worker_pool S"
  by (induction ts arbitrary: S) (auto simp: task_cancel_def split: task_id.splits)

lemma interrupt_gathers_main:
  assumes "main_at S \<noteq> Exited"
  shows "\<exists>W. main_at (on_keyboard_interrupt S) = Gathering W \<and> MainTask \<in> set W"
  using assms fold_cancel_frame[of "filter (\<lambda>t. t \<noteq> MainTask) (all_tasks S)" S]
  by (simp add: on_keyboard_interrupt_def Let_def all_tasks_def)

lemma loop_step_main: "loop_step S i a = Some S' \<Longrightarrow> main_at S' = main_at S"
  by (auto simp: loop_step_def split: if_splits option.splits)

lemma loop_run_main: "loop_run S evs = Some S' \<Longrightarrow> main_at S' = main_at S"
proof (induction evs arbitrary: S)
  case Nil
  then show ?case by simp
next
  case (Cons ev evs)
  obtain i a where ev: "ev = (i, a)" by (cases ev)
  from Cons.prems ev obtain S1 where s: "loop_step S i a = Some S1"
      and r: "loop_run S1 evs = Some S'"
    by (auto split: option.splits)
  from Cons.IH[OF r] loop_step_main[OF s] show ?case by simp
qed

lemma gather_on_self_waits:
  assumes "main_at S = Gathering W" and "MainTask \<in> set W"
  shows "main_resume S = None"
proof -
  have "\<not> task_done S MainTask" using assms(1) by (simp add: task_done_def)
  then have "\<not> list_all (task_done S) W" using assms(2) by (auto simp: list_all_iff)
  then show ?thesis using assms(1) by (simp add: main_resume_def)
qed

lemma handler_never_returns:
  assumes "main_at S \<noteq> Exited" and "loop_run (on_keyboard_interrupt S) evs = Some S'"
  shows "main_resume S' = None"
proof -
  obtain W where w: "main_at (on_keyboard_interrupt S) = Gathering W" "MainTask \<in> set W"
    using interrupt_gathers_main[OF assms(1)] by blast
  have "main_at S' = Gathering W" using loop_run_main[OF assms(2)] w(1) by simp
  then show ?thesis using w(2) by (rule gather_on_self_waits)
qed

lemma busy_pool_reachable:
  "run (init 3)
     [(0, FileMissing), (0, PermitGranted), (0, ResponseOk), (1, FileMissing),
      (1, PermitGranted), (1, ResponseOk), (1, StreamDone), (2, FileExists),
      (2, LockGranted), (2, CoverDone)] = Some busy_pool"
  by (simp add: init_def step_def worker_step_def MAX_CONCURRENT_DOWNLOADS_def
      eval_nat_numeral busy_pool_def)

text \<open>
  C9. The code does not do what the specification says. A reachable state with two
  outstanding workers: the handler requests their cancellation, both take the
  cancellation and give their permits back, so that all 6 permits are in the semaphore
  again. But the tasks gathered at line 307 include the main task itself, which line
  305 leaves out and line 307 does not; the main task is not done while it waits, so it
  never goes on past line 307 (\<open>handler_never_returns\<close>, for every state and every
  continuation of the event loop) and the orchestrator does not exit.
\<close>

theorem interrupt_handler_waits_on_itself:
  "on_keyboard_interrupt \<lparr>worker_pool = busy_pool, main_at = Collecting, cancelling = []\<rparr>
     = \<lparr>worker_pool = busy_pool,
        main_at = Gathering [MainTask, WorkerTask 0, WorkerTask 1], cancelling = [0, 1]\<rparr>
   \<and> loop_run \<lparr>worker_pool = busy_pool,
        main_at = Gathering [MainTask, WorkerTask 0, WorkerTask 1], cancelling = [0, 1]\<rparr>
        [(0, Cancel), (1, Cancel)]
     = Some \<lparr>worker_pool = \<lparr>sem = 6, lock = False,
          workers = [\<lparr>pc = Finished cancelled, permit = False\<rparr>,
                     \<lparr>pc = Finished cancelled, permit = False\<rparr>,
                     \<lparr>pc = Finished (Returned True), permit = False\<rparr>]\<rparr>,
        main_at = Gathering [MainTask, WorkerTask 0, WorkerTask 1], cancelling = []\<rparr>
   \<and> main_resume \<lparr>worker_pool = \<lparr>sem = 6, lock = False,
          workers = [\<lparr>pc = Finished cancelled, permit = False\<rparr>,
                     \<lparr>pc = Finished cancelled, permit = False\<rparr>,
                     \<lparr>pc = Finished (Returned True), permit = False\<rparr>]\<rparr>,
        main_at = Gathering [MainTask, WorkerTask 0, WorkerTask 1], cancelling = []\<rparr> = None"
proof -
  have a: "all_tasks \<lparr>worker_pool = busy_pool, main_at = m, cancelling = c\<rparr>
      = (if m = Exited then [] else [MainTask]) @ [WorkerTask 0, WorkerTask 1]" for m c
    by (simp add: all_tasks_def busy_pool_def unfinished_def upt_rec nth_Cons')
  have h: "on_keyboard_interrupt \<lparr>worker_pool = busy_pool, main_at = Collecting, cancelling = []\<rparr>
     = \<lparr>worker_pool = busy_pool,
        main_at = Gathering [MainTask, WorkerTask 0, WorkerTask 1], cancelling = [0, 1]\<rparr>"
    by (simp add: on_keyboard_interrupt_def Let_def a task_cancel_def)
  have r: "loop_run \<lparr>worker_pool = busy_pool,
        main_at = Gathering [MainTask, WorkerTask 0, WorkerTask 1], cancelling = [0, 1]\<rparr>
        [(0, Cancel), (1, Cancel)]
     = Some \<lparr>worker_pool = \<lparr>sem = 6, lock = False,
          workers = [\<lparr>pc = Finished cancelled, permit = False\<rparr>,
                     \<lparr>pc = Finished cancelled, permit = False\<rparr>,
                     \<lparr>pc = Finished (Returned True), permit = False\<rparr>]\<rparr>,
        main_at = Gathering [MainTask, WorkerTask 0, WorkerTask 1], cancelling = []\<rparr>"
    by (simp add: loop_step_def step_def worker_step_def busy_pool_def)
  show ?thesis
    by (simp only: h r) (simp add: main_resume_def task_done_def)
qed

end
